theory Spec2Isabelle
  imports Main "HOL-Library.Log_Nat"
begin

section \<open>trello-sprint: a shallow embedding of \<^verbatim>\<open>src/trello_sprint/main.py\<close>\<close>

text \<open>
  The module reads a Trello board through the \<^verbatim>\<open>py-trello\<close> client, classifies the cards of
  its workflow lists and either prints a sprint report or copies a score from Bugzilla into
  a custom field of the backlog cards.

  Conventions of the embedding:
  \<^item> Python strings are \<open>string\<close>; \<^verbatim>\<open>str.upper\<close> and \<^verbatim>\<open>str.lower\<close> are modelled on the ASCII
    letters (every other character is left alone).
  \<^item> Python \<^verbatim>\<open>None\<close> is \<open>None\<close> of an option type.
  \<^item> An exception is the \<open>Inl\<close> of a sum type; a function that touches the module's globals
    or performs an observable effect takes the state and returns the new one, also when it
    raises.
  \<^item> Every observable effect (a remote member lookup, a printed line, a Bugzilla query, a
    custom-field write) is appended to one chronological trace.
  \<^item> Functions of the Python standard library and of the remote services, whose code is not
    part of the repository, are the fields of an environment record.
\<close>

subsection \<open>Strings\<close>

definition upper_char :: "char \<Rightarrow> char" where
  "upper_char c =
     (let n = (of_char c :: nat) in if 97 \<le> n \<and> n \<le> 122 then char_of (n - 32) else c)"

definition lower_char :: "char \<Rightarrow> char" where
  "lower_char c =
     (let n = (of_char c :: nat) in if 65 \<le> n \<and> n \<le> 90 then char_of (n + 32) else c)"

definition upper :: "string \<Rightarrow> string" where
  "upper s = map upper_char s"

definition lower :: "string \<Rightarrow> string" where
  "lower s = map lower_char s"

text \<open>
  The specification's wording, independent of the two functions above: two characters are
  equal ignoring case when they are the same character or the two cases of one letter, and
  two strings are equal ignoring case when they have the same length and agree in this
  sense at every position.
\<close>

definition is_upper_letter :: "char \<Rightarrow> bool" where
  "is_upper_letter c \<longleftrightarrow> 65 \<le> (of_char c :: nat) \<and> (of_char c :: nat) \<le> 90"

definition same_letter :: "char \<Rightarrow> char \<Rightarrow> bool" where
  "same_letter c d \<longleftrightarrow>
     c = d
     \<or> (is_upper_letter c \<and> (of_char d :: nat) = of_char c + 32)
     \<or> (is_upper_letter d \<and> (of_char c :: nat) = of_char d + 32)"

definition equal_ignoring_case :: "string \<Rightarrow> string \<Rightarrow> bool" where
  "equal_ignoring_case s t \<longleftrightarrow> list_all2 same_letter s t"

subsection \<open>Constants of the module\<close>

definition LABEL_UNPLANNED :: string where
  "LABEL_UNPLANNED = ''UNPLANNED''"

definition FIELD_BUGZILLA :: string where
  "FIELD_BUGZILLA = ''BUGZILLA''"

definition FIELD_PM_SCORE :: string where
  "FIELD_PM_SCORE = ''PM_SCORE''"

subsection \<open>The board as the client returns it\<close>

record label =
  label_name :: string

text \<open>The value of a custom field is a string, or \<^verbatim>\<open>None\<close>.\<close>

record custom_field =
  cf_name :: string
  cf_value :: "string option"

text \<open>
  \<open>labels\<close> and \<open>member_id\<close> may be \<^verbatim>\<open>None\<close>: the source guards the first with
  \<^verbatim>\<open>card.labels or []\<close> and the second with \<^verbatim>\<open>not card.member_id\<close>.
\<close>

record card =
  card_name :: string
  labels :: "label list option"
  custom_fields :: "custom_field list"
  member_id :: "string list option"

text \<open>\<open>list_cards\<close> is the result of \<^verbatim>\<open>tlist.list_cards()\<close>.\<close>

record worklist =
  list_name :: string
  list_cards :: "card list"

text \<open>\<open>list_lists\<close> is the result of \<^verbatim>\<open>board.list_lists('open')\<close>.\<close>

record board =
  board_name :: string
  list_lists :: "worklist list"

subsection \<open>Errors\<close>

datatype pyerror =
    ListNotFound string
  | KeyError string
  | IndexError
  | ValueError
  | OverflowError
  | ZeroDivisionError
  | SystemExit int

subsection \<open>\<^verbatim>\<open>get_board\<close>\<close>

text \<open>
  \<^verbatim>\<open>
  def get_board(name):
      boards = CLIENT.list_boards('open')
      for b in boards:
          if b.name == name:
              return b
  \<close>
  Falling off the loop returns \<^verbatim>\<open>None\<close>. The first argument is the result of
  \<^verbatim>\<open>CLIENT.list_boards('open')\<close>.
\<close>

fun get_board :: "board list \<Rightarrow> string \<Rightarrow> board option" where
  "get_board [] name = None"
| "get_board (b # boards) name =
     (if board_name b = name then Some b else get_board boards name)"

subsection \<open>\<^verbatim>\<open>get_list\<close>\<close>

text \<open>
  \<^verbatim>\<open>
  def get_list(lists, name):
      name = name.lower()
      for l in lists:
          if l.name.lower() == name:
              return l
      else:
          raise ListNotFound('List named "%s" was not found' % name)
  \<close>
  The \<^verbatim>\<open>else\<close> of the loop runs when the loop ends without a \<^verbatim>\<open>return\<close>. The error carries
  the lowered name, which is what the message is formatted with.
\<close>

fun get_list_loop :: "worklist list \<Rightarrow> string \<Rightarrow> pyerror + worklist" where
  "get_list_loop [] name = Inl (ListNotFound name)"
| "get_list_loop (l # ls) name =
     (if lower (list_name l) = name then Inr l else get_list_loop ls name)"

definition get_list :: "worklist list \<Rightarrow> string \<Rightarrow> pyerror + worklist" where
  "get_list ls name = get_list_loop ls (lower name)"

subsection \<open>Python floats\<close>

text \<open>
  A Python \<^verbatim>\<open>float\<close> is an IEEE 754 binary64 number. Its finite values are modelled by the
  rationals they denote (the two zeros are not distinguished), and every operation rounds
  its exact result to the nearest representable number, ties to the even significand.
\<close>

datatype pyfloat = Finite rat | PosInf | NegInf | NaN

text \<open>\<open>ilog2 q\<close> is \<open>\<lfloor>log\<^sub>2 q\<rfloor>\<close> for a positive rational \<open>q\<close>.\<close>

definition ilog2 :: "rat \<Rightarrow> int" where
  "ilog2 q =
     (let (a, b) = quotient_of q; d = bitlen a - bitlen b
      in if power_int 2 d \<le> q then d else d - 1)"

definition round_half_even :: "rat \<Rightarrow> int" where
  "round_half_even q =
     (let f = \<lfloor>q\<rfloor>; r = q - of_int f
      in if r < 1 / 2 then f else if 1 / 2 < r then f + 1 else if even f then f else f + 1)"

text \<open>
  The significand has 53 bits and the least exponent of a unit in the last place is
  \<open>-1074\<close>; a rounded magnitude of \<open>2\<^sup>1\<^sup>0\<^sup>2\<^sup>4\<close> or more is an infinity.
\<close>

definition round_double :: "rat \<Rightarrow> pyfloat" where
  "round_double q =
     (if q = 0 then Finite 0
      else
        let a = \<bar>q\<bar>;
            e = max (ilog2 a - 52) (- 1074);
            m = round_half_even (a / power_int 2 e);
            r = of_int m * power_int 2 e
        in if 2 ^ 1024 \<le> r then (if q < 0 then NegInf else PosInf)
           else Finite (if q < 0 then - r else r))"

text \<open>\<^verbatim>\<open>float(n)\<close> of an \<^verbatim>\<open>int\<close>: correctly rounded, \<^verbatim>\<open>OverflowError\<close> when out of range.\<close>

definition py_float :: "int \<Rightarrow> pyerror + pyfloat" where
  "py_float n =
     (case round_double (of_int n) of
        Finite r \<Rightarrow> Inr (Finite r)
      | _ \<Rightarrow> Inl OverflowError)"

fun is_negative :: "pyfloat \<Rightarrow> bool" where
  "is_negative (Finite a) = (a < 0)"
| "is_negative NegInf = True"
| "is_negative PosInf = False"
| "is_negative NaN = False"

definition signed_inf :: "bool \<Rightarrow> pyfloat" where
  "signed_inf neg = (if neg then NegInf else PosInf)"

fun float_mul :: "pyfloat \<Rightarrow> pyfloat \<Rightarrow> pyfloat" where
  "float_mul NaN y = NaN"
| "float_mul x NaN = NaN"
| "float_mul (Finite a) (Finite b) = round_double (a * b)"
| "float_mul (Finite a) y =
     (if a = 0 then NaN else signed_inf ((a < 0) \<noteq> is_negative y))"
| "float_mul x (Finite b) =
     (if b = 0 then NaN else signed_inf (is_negative x \<noteq> (b < 0)))"
| "float_mul x y = signed_inf (is_negative x \<noteq> is_negative y)"

text \<open>Python raises \<^verbatim>\<open>ZeroDivisionError\<close> for every float divided by zero.\<close>

fun float_div :: "pyfloat \<Rightarrow> pyfloat \<Rightarrow> pyerror + pyfloat" where
  "float_div x (Finite b) =
     (if b = 0 then Inl ZeroDivisionError
      else case x of
             Finite a \<Rightarrow> Inr (round_double (a / b))
           | NaN \<Rightarrow> Inr NaN
           | _ \<Rightarrow> Inr (signed_inf (is_negative x \<noteq> (b < 0))))"
| "float_div x NaN = Inr NaN"
| "float_div NaN y = Inr NaN"
| "float_div (Finite a) y = Inr (Finite 0)"
| "float_div x y = Inr NaN"

subsection \<open>\<^verbatim>\<open>percentage\<close>\<close>

text \<open>
  \<^verbatim>\<open>
  def percentage(part, whole):
      try:
          return 100 * float(part)/float(whole)
      except ZeroDivisionError:
          return 100
  \<close>
  The operands are evaluated from left to right: \<^verbatim>\<open>float(part)\<close>, the product, then
  \<^verbatim>\<open>float(whole)\<close>, then the quotient. Only \<^verbatim>\<open>ZeroDivisionError\<close> is caught. The \<^verbatim>\<open>int\<close> 100 of
  the handler is the float of the same value: Python compares and formats the two alike.
\<close>

definition percentage :: "int \<Rightarrow> int \<Rightarrow> pyerror + pyfloat" where
  "percentage part whole =
     (case py_float part of
        Inl e \<Rightarrow> Inl e
      | Inr x \<Rightarrow>
          (let n = float_mul (Finite 100) x
           in (case py_float whole of
                 Inl e \<Rightarrow> Inl e
               | Inr y \<Rightarrow>
                   (case float_div n y of
                      Inl e \<Rightarrow> (if e = ZeroDivisionError then Inr (Finite 100) else Inl e)
                    | Inr r \<Rightarrow> Inr r))))"

subsection \<open>Printed lines, effects, globals, environment\<close>

text \<open>
  One constructor for each \<^verbatim>\<open>print\<close> statement of the module, holding the values that the
  statement formats:
  \<^item> \<open>UnitsPlanned n\<close>: \<^verbatim>\<open>print('Units of work planned:', units_planned)\<close>
  \<^item> \<open>UnitsUnplanned n\<close>: \<^verbatim>\<open>print('Units of work unplanned:', units_unplanned)\<close>
  \<^item> \<open>PlannedAchieved n p\<close>: \<^verbatim>\<open>print('Units of planned work achieved: %d (%.1f%%)' % (n, p))\<close>
  \<^item> \<open>UnplannedAchieved n p\<close>: \<^verbatim>\<open>print('Units of unplanned work achieved: %d (%.1f%%)' % (n, p))\<close>
  \<^item> \<open>AchievementHeadline\<close>, \<open>UnplannedHeadline\<close>, \<open>UnfinishedCards\<close>: the three headlines
  \<^item> \<open>CardLine name marker\<close>: \<^verbatim>\<open>print('\t*', card['name'], marker)\<close>
  \<^item> \<open>MembersLine ms\<close>: \<^verbatim>\<open>print('\t\t[', ', '.join(card['members']), ']')\<close>
  \<^item> \<open>SettingScore name score\<close>: \<^verbatim>\<open>print('Setting PM_SCORE for "%s" to %s' % (name, score))\<close>
  \<^item> \<open>SelectCommand\<close>, \<open>BoardNotFound name\<close>, \<open>InvalidCommand c\<close>: the messages of \<^verbatim>\<open>main\<close>
\<close>

datatype out =
    UnitsPlanned nat
  | UnitsUnplanned nat
  | PlannedAchieved nat pyfloat
  | UnplannedAchieved nat pyfloat
  | AchievementHeadline
  | UnplannedHeadline
  | UnfinishedCards
  | CardLine string string
  | MembersLine "string list"
  | SettingScore string string
  | SelectCommand
  | BoardNotFound string
  | InvalidCommand string

text \<open>
  The observable effects, in the order in which they happen:
  \<^item> \<open>MemberFetch mid\<close>: \<^verbatim>\<open>Member(CLIENT, mid).fetch()\<close>, a remote lookup
  \<^item> \<open>Print line\<close>: a \<^verbatim>\<open>print\<close>
  \<^item> \<open>InteractiveLogin\<close>: \<^verbatim>\<open>bzapi.interactive_login()\<close>
  \<^item> \<open>GetBug i\<close>: \<^verbatim>\<open>bzapi.getbug(i)\<close>, a query of the issue tracker
  \<^item> \<open>SetCustomField c name v\<close>: the assignment to \<^verbatim>\<open>.value\<close> of the custom field \<open>name\<close>
    of the card \<open>c\<close>
\<close>

datatype effect =
    MemberFetch string
  | Print out
  | InteractiveLogin
  | GetBug string
  | SetCustomField card string int

text \<open>The module's globals \<^verbatim>\<open>_INCLUDE_MEMBERS\<close> and \<^verbatim>\<open>MEMBERS_CACHE\<close>, and the trace.\<close>

record state =
  INCLUDE_MEMBERS :: bool
  MEMBERS_CACHE :: "string \<rightharpoonup> string"
  trace :: "effect list"

definition emit :: "effect \<Rightarrow> state \<Rightarrow> state" where
  "emit e st = st\<lparr>trace := trace st @ [e]\<rparr>"

text \<open>
  What the module calls and does not define:
  \<^item> \<open>member_full_name mid\<close>: \<^verbatim>\<open>full_name\<close> of the member \<open>mid\<close> after \<^verbatim>\<open>fetch()\<close>
  \<^item> \<open>urlparse_query url\<close>: \<^verbatim>\<open>urlparse(url).query\<close>
  \<^item> \<open>parse_qs q\<close>: the dictionary \<^verbatim>\<open>parse_qs(q)\<close>
  \<^item> \<open>bz_logged_in\<close>: \<^verbatim>\<open>bzapi.logged_in\<close>
  \<^item> \<open>bug_pm_score i\<close>: \<^verbatim>\<open>bzapi.getbug(i).cf_pm_score\<close>
  \<^item> \<open>py_int s\<close>: \<^verbatim>\<open>int(s)\<close>
  Failures of the remote services themselves (network faults) are not modelled.
\<close>

record env =
  member_full_name :: "string \<Rightarrow> string"
  urlparse_query :: "string \<Rightarrow> string"
  parse_qs :: "string \<Rightarrow> (string \<rightharpoonup> string list)"
  bz_logged_in :: bool
  bug_pm_score :: "string \<Rightarrow> string"
  py_int :: "string \<Rightarrow> pyerror + int"

subsection \<open>\<^verbatim>\<open>list_members_from_card\<close>\<close>

text \<open>
  \<^verbatim>\<open>
  def list_members_from_card(card):
      members = []
      if not _INCLUDE_MEMBERS or not card.member_id:
          return members
      for mid in card.member_id:
          if mid not in MEMBERS_CACHE:
              member = Member(CLIENT, mid)
              member.fetch()
              MEMBERS_CACHE[mid] = member.full_name
          members.append(MEMBERS_CACHE[mid])
      return members
  \<close>
  In the loop, the name appended is the one just stored, or the one found in the cache.
\<close>

fun members_loop :: "env \<Rightarrow> string list \<Rightarrow> string list \<Rightarrow> state \<Rightarrow> string list \<times> state" where
  "members_loop env [] members st = (members, st)"
| "members_loop env (mid # mids) members st =
     (case MEMBERS_CACHE st mid of
        None \<Rightarrow>
          (let st1 = emit (MemberFetch mid) st;
               full_name = member_full_name env mid;
               st2 = st1\<lparr>MEMBERS_CACHE := (MEMBERS_CACHE st1)(mid \<mapsto> full_name)\<rparr>
           in members_loop env mids (members @ [full_name]) st2)
      | Some cached \<Rightarrow> members_loop env mids (members @ [cached]) st)"

definition list_members_from_card :: "env \<Rightarrow> card \<Rightarrow> state \<Rightarrow> string list \<times> state" where
  "list_members_from_card env c st =
     (if \<not> INCLUDE_MEMBERS st then ([], st)
      else (case member_id c of
              None \<Rightarrow> ([], st)
            | Some mids \<Rightarrow> if mids = [] then ([], st) else members_loop env mids [] st))"

subsection \<open>\<^verbatim>\<open>is_card_unplanned\<close>\<close>

text \<open>
  \<^verbatim>\<open>
  def is_card_unplanned(card):
      for l in card.labels or []:
          if l.name.upper() == LABEL_UNPLANNED:
              return True
      return False
  \<close>
\<close>

fun unplanned_loop :: "label list \<Rightarrow> bool" where
  "unplanned_loop [] = False"
| "unplanned_loop (l # ls) =
     (if upper (label_name l) = LABEL_UNPLANNED then True else unplanned_loop ls)"

definition is_card_unplanned :: "card \<Rightarrow> bool" where
  "is_card_unplanned c = unplanned_loop (case labels c of None \<Rightarrow> [] | Some ls \<Rightarrow> ls)"

subsection \<open>\<^verbatim>\<open>parse_cards_from_list\<close>\<close>

text \<open>
  The dictionary built for each card. The key \<^verbatim>\<open>'bugzilla'\<close> is set only when a custom field
  matches, so \<open>unit_bugzilla\<close> is \<open>None\<close> when the key is absent and \<open>Some v\<close> when the
  key holds \<open>v\<close> (which may itself be \<^verbatim>\<open>None\<close>).
\<close>

record work_unit =
  unit_object :: card
  unit_members :: "string list"
  unit_unplanned :: bool
  unit_bugzilla :: "string option option"
  unit_name :: string

text \<open>The dictionary \<^verbatim>\<open>{'planned': [], 'unplanned': []}\<close>.\<close>

record cards =
  planned :: "work_unit list"
  unplanned :: "work_unit list"

text \<open>
  \<^verbatim>\<open>
  def parse_cards_from_list(lists, list_name):
      cards = {'planned': [], 'unplanned': []}
      tlist = get_list(lists, list_name)
      for c in tlist.list_cards():
          card = {}
          card['_object'] = c
          card['members'] = list_members_from_card(c)
          card['unplanned'] = is_card_unplanned(c)
          for cf in c.custom_fields:
              if cf.name.upper() == FIELD_BUGZILLA:
                  card['bugzilla'] = cf.value
          card['name'] = c.name
          key = 'unplanned' if card['unplanned'] else 'planned'
          cards[key].append(card)
      return cards
  \<close>
\<close>

fun bugzilla_loop :: "custom_field list \<Rightarrow> string option option \<Rightarrow> string option option" where
  "bugzilla_loop [] bz = bz"
| "bugzilla_loop (cf # cfs) bz =
     bugzilla_loop cfs (if upper (cf_name cf) = FIELD_BUGZILLA then Some (cf_value cf) else bz)"

fun cards_loop :: "env \<Rightarrow> card list \<Rightarrow> cards \<Rightarrow> state \<Rightarrow> cards \<times> state" where
  "cards_loop env [] cs st = (cs, st)"
| "cards_loop env (c # rest) cs st =
     (let (members, st1) = list_members_from_card env c st;
          u = \<lparr>unit_object = c,
               unit_members = members,
               unit_unplanned = is_card_unplanned c,
               unit_bugzilla = bugzilla_loop (custom_fields c) None,
               unit_name = card_name c\<rparr>;
          cs1 = (if unit_unplanned u then cs\<lparr>unplanned := unplanned cs @ [u]\<rparr>
                 else cs\<lparr>planned := planned cs @ [u]\<rparr>)
      in cards_loop env rest cs1 st1)"

definition parse_cards_from_list ::
  "env \<Rightarrow> worklist list \<Rightarrow> string \<Rightarrow> state \<Rightarrow> (pyerror + cards) \<times> state" where
  "parse_cards_from_list env ls name st =
     (case get_list ls name of
        Inl e \<Rightarrow> (Inl e, st)
      | Inr tlist \<Rightarrow>
          (let (cs, st1) = cards_loop env (list_cards tlist) \<lparr>planned = [], unplanned = []\<rparr> st
           in (Inr cs, st1)))"

subsection \<open>\<^verbatim>\<open>print_card\<close> and \<^verbatim>\<open>print_report\<close>\<close>

text \<open>
  \<^verbatim>\<open>
  def print_card(card, print_unplanned=False):
      print('\t*', card['name'],
            '[unplanned]' if print_unplanned and card['unplanned'] else '')
      if _INCLUDE_MEMBERS:
          print('\t\t[', ', '.join(card['members']), ']')
  \<close>
  The flag is the first argument here, so that the loops over the cards are folds.
\<close>

definition print_card :: "bool \<Rightarrow> work_unit \<Rightarrow> state \<Rightarrow> state" where
  "print_card print_unplanned u st =
     (let st1 = emit (Print (CardLine (unit_name u)
                  (if print_unplanned \<and> unit_unplanned u then ''[unplanned]'' else []))) st
      in if INCLUDE_MEMBERS st1 then emit (Print (MembersLine (unit_members u))) st1 else st1)"

text \<open>
  \<^verbatim>\<open>print_report\<close> parses the four lists, computes the four counts, prints the totals and the
  two achievement lines, then the three listings. An exception ends it where it is raised.
\<close>

definition print_report :: "env \<Rightarrow> worklist list \<Rightarrow> state \<Rightarrow> (pyerror + unit) \<times> state" where
  "print_report env ls st =
     (case parse_cards_from_list env ls ''Sprint Backlog'' st of
        (Inl e, st1) \<Rightarrow> (Inl e, st1)
      | (Inr sprint_backlog_cards, st1) \<Rightarrow>
     (case parse_cards_from_list env ls ''Doing'' st1 of
        (Inl e, st2) \<Rightarrow> (Inl e, st2)
      | (Inr doing_cards, st2) \<Rightarrow>
     (case parse_cards_from_list env ls ''In Review'' st2 of
        (Inl e, st3) \<Rightarrow> (Inl e, st3)
      | (Inr in_review_cards, st3) \<Rightarrow>
     (case parse_cards_from_list env ls ''Done'' st3 of
        (Inl e, st4) \<Rightarrow> (Inl e, st4)
      | (Inr done_cards, st4) \<Rightarrow>
     (let units_planned_done = length (planned done_cards);
          units_unplanned_done = length (unplanned done_cards);
          units_planned = length (planned sprint_backlog_cards)
                        + length (planned doing_cards)
                        + length (planned in_review_cards)
                        + units_planned_done;
          units_unplanned = length (unplanned sprint_backlog_cards)
                          + length (unplanned doing_cards)
                          + length (unplanned in_review_cards)
                          + units_unplanned_done;
          st5 = emit (Print (UnitsPlanned units_planned)) st4;
          st6 = emit (Print (UnitsUnplanned units_unplanned)) st5
      in
     (case percentage (int units_planned_done) (int units_planned) of
        Inl e \<Rightarrow> (Inl e, st6)
      | Inr p \<Rightarrow>
     (let st7 = emit (Print (PlannedAchieved units_planned_done p)) st6
      in
     (case percentage (int units_unplanned_done) (int units_unplanned) of
        Inl e \<Rightarrow> (Inl e, st7)
      | Inr q \<Rightarrow>
     (let st8 = emit (Print (UnplannedAchieved units_unplanned_done q)) st7;
          st9 = emit (Print AchievementHeadline) st8;
          st10 = fold (print_card False) (planned done_cards) st9;
          st11 = emit (Print UnplannedHeadline) st10;
          st12 = fold (print_card False) (unplanned done_cards) st11;
          st13 = emit (Print UnfinishedCards) st12;
          st14 = fold (print_card True)
                   (planned sprint_backlog_cards @ unplanned sprint_backlog_cards
                    @ planned doing_cards @ unplanned doing_cards
                    @ planned in_review_cards @ unplanned in_review_cards) st13
      in (Inr (), st14))))))))))"

subsection \<open>\<^verbatim>\<open>set_pm_score\<close>\<close>

text \<open>
  \<^verbatim>\<open>
  def set_pm_score(lists):
      backlog_cards = parse_cards_from_list(lists, 'Backlog')
      bzapi = bugzilla.Bugzilla(_BUGZILLA_URL)
      if not bzapi.logged_in:
          bzapi.interactive_login()
      for card in backlog_cards['planned'] + backlog_cards['unplanned']:
          bz_url = card.get('bugzilla')
          if bz_url is None:
              continue
          bug = bzapi.getbug(parse_qs(urlparse(bz_url).query)['id'][0])
          print('Setting PM_SCORE for "%s" to %s' % (card['name'], bug.cf_pm_score))
          cf = card['_object'].get_custom_field_by_name(FIELD_PM_SCORE)
          cf.value = int(bug.cf_pm_score)
  \<close>
\<close>

text \<open>\<^verbatim>\<open>card.get('bugzilla')\<close>: \<^verbatim>\<open>None\<close> when the key is absent, its value otherwise.\<close>

definition get_bugzilla :: "work_unit \<Rightarrow> string option" where
  "get_bugzilla u = (case unit_bugzilla u of None \<Rightarrow> None | Some v \<Rightarrow> v)"

text \<open>
  \<^verbatim>\<open>parse_qs(urlparse(bz_url).query)['id'][0]\<close>: the subscript \<^verbatim>\<open>['id']\<close> raises \<^verbatim>\<open>KeyError\<close>
  on a dictionary without that key, and \<^verbatim>\<open>[0]\<close> raises \<^verbatim>\<open>IndexError\<close> on an empty list.
\<close>

definition bug_id :: "env \<Rightarrow> string \<Rightarrow> pyerror + string" where
  "bug_id env bz_url =
     (case parse_qs env (urlparse_query env bz_url) ''id'' of
        None \<Rightarrow> Inl (KeyError ''id'')
      | Some vs \<Rightarrow> (case vs of [] \<Rightarrow> Inl IndexError | v # _ \<Rightarrow> Inr v))"

fun score_loop :: "env \<Rightarrow> work_unit list \<Rightarrow> state \<Rightarrow> (pyerror + unit) \<times> state" where
  "score_loop env [] st = (Inr (), st)"
| "score_loop env (u # rest) st =
     (case get_bugzilla u of
        None \<Rightarrow> score_loop env rest st
      | Some bz_url \<Rightarrow>
          (case bug_id env bz_url of
             Inl e \<Rightarrow> (Inl e, st)
           | Inr i \<Rightarrow>
               (let st1 = emit (GetBug i) st;
                    cf_pm_score = bug_pm_score env i;
                    st2 = emit (Print (SettingScore (unit_name u) cf_pm_score)) st1
                in (case py_int env cf_pm_score of
                      Inl e \<Rightarrow> (Inl e, st2)
                    | Inr n \<Rightarrow>
                        score_loop env rest
                          (emit (SetCustomField (unit_object u) FIELD_PM_SCORE n) st2)))))"

definition set_pm_score :: "env \<Rightarrow> worklist list \<Rightarrow> state \<Rightarrow> (pyerror + unit) \<times> state" where
  "set_pm_score env ls st =
     (case parse_cards_from_list env ls ''Backlog'' st of
        (Inl e, st1) \<Rightarrow> (Inl e, st1)
      | (Inr backlog_cards, st1) \<Rightarrow>
          (let st2 = (if \<not> bz_logged_in env then emit InteractiveLogin st1 else st1)
           in score_loop env (planned backlog_cards @ unplanned backlog_cards) st2))"

subsection \<open>\<^verbatim>\<open>main\<close>\<close>

text \<open>
  \<^verbatim>\<open>
  def main():
      cli_options = get_cli_options()
      if cli_options.command is None:
          print('Please select a command. --help for more information')
          sys.exit(1)
      get_client(cli_options.config)
      board = get_board(cli_options.board)
      if not board:
          print('Board %s not found' % cli_options.board)
          return
      lists = board.list_lists('open')
      if cli_options.command == 'report':
          print_report(lists)
      elif cli_options.command == 'pm-score':
          set_pm_score(lists)
      else:
          print('Command "%s" is not a valid command' % cli_options.command)
          sys.exit(1)
  \<close>
  The command line is already parsed and the client is built: \<open>board_arg\<close> and \<open>command\<close>
  are the two options read from the command line, \<open>INCLUDE_MEMBERS\<close> of the state is what
  \<^verbatim>\<open>_report_defaults\<close> has set, and \<open>boards\<close> is the result of
  \<^verbatim>\<open>CLIENT.list_boards('open')\<close>. \<^verbatim>\<open>sys.exit(1)\<close> raises \<^verbatim>\<open>SystemExit\<close>. No exception is caught.
\<close>

definition main ::
  "env \<Rightarrow> board list \<Rightarrow> string \<Rightarrow> string option \<Rightarrow> state \<Rightarrow> (pyerror + unit) \<times> state" where
  "main env boards board_arg command st =
     (case command of
        None \<Rightarrow> (Inl (SystemExit 1), emit (Print SelectCommand) st)
      | Some cmd \<Rightarrow>
          (case get_board boards board_arg of
             None \<Rightarrow> (Inr (), emit (Print (BoardNotFound board_arg)) st)
           | Some b \<Rightarrow>
               (let ls = list_lists b
                in if cmd = ''report'' then print_report env ls st
                   else if cmd = ''pm-score'' then set_pm_score env ls st
                   else (Inl (SystemExit 1), emit (Print (InvalidCommand cmd)) st))))"

subsection \<open>Reading the trace\<close>

text \<open>The lines printed so far, and the member ids looked up remotely so far, in order.\<close>

fun print_line :: "effect \<Rightarrow> out list" where
  "print_line (Print line) = [line]"
| "print_line e = []"

definition printed :: "state \<Rightarrow> out list" where
  "printed st = concat (map print_line (trace st))"

fun fetch_id :: "effect \<Rightarrow> string list" where
  "fetch_id (MemberFetch mid) = [mid]"
| "fetch_id e = []"

definition lookups :: "state \<Rightarrow> string list" where
  "lookups st = concat (map fetch_id (trace st))"

text \<open>
  The cache and the lookups agree when every cached id was looked up exactly once and
  nothing else was looked up. The state in which a run starts (empty cache, empty trace)
  is such a state.
\<close>

definition cache_consistent :: "state \<Rightarrow> bool" where
  "cache_consistent st \<longleftrightarrow>
     distinct (lookups st) \<and> set (lookups st) = dom (MEMBERS_CACHE st)"

text \<open>The display name of a member id: the cached one, else the one the service returns.\<close>

definition resolved_name :: "env \<Rightarrow> state \<Rightarrow> string \<Rightarrow> string" where
  "resolved_name env st mid =
     (case MEMBERS_CACHE st mid of Some cached \<Rightarrow> cached | None \<Rightarrow> member_full_name env mid)"

text \<open>
  \<open>fetched st st'\<close>: the state \<open>st'\<close> differs from \<open>st\<close> by remote member lookups only,
  each of an id that was not cached, each made once and stored.
\<close>

definition fetched :: "state \<Rightarrow> state \<Rightarrow> bool" where
  "fetched st st' \<longleftrightarrow>
     INCLUDE_MEMBERS st' = INCLUDE_MEMBERS st
     \<and> (\<exists>new. trace st' = trace st @ map MemberFetch new \<and> distinct new
           \<and> set new \<inter> dom (MEMBERS_CACHE st) = {}
           \<and> dom (MEMBERS_CACHE st') = dom (MEMBERS_CACHE st) \<union> set new)"

text \<open>\<open>prints lines st\<close> is the state \<open>st\<close> after \<open>lines\<close> have been printed, in order.\<close>

definition prints :: "out list \<Rightarrow> state \<Rightarrow> state" where
  "prints lines st = st\<lparr>trace := trace st @ map Print lines\<rparr>"

text \<open>The one or two lines that \<^verbatim>\<open>print_card\<close> prints for a unit.\<close>

definition card_lines :: "bool \<Rightarrow> bool \<Rightarrow> work_unit \<Rightarrow> out list" where
  "card_lines include_members print_unplanned u =
     CardLine (unit_name u) (if print_unplanned \<and> unit_unplanned u then ''[unplanned]'' else [])
     # (if include_members then [MembersLine (unit_members u)] else [])"

text \<open>The number of cards of a list that are classified planned, and unplanned.\<close>

definition planned_count :: "worklist \<Rightarrow> nat" where
  "planned_count l = length (filter (\<lambda>c. \<not> is_card_unplanned c) (list_cards l))"

definition unplanned_count :: "worklist \<Rightarrow> nat" where
  "unplanned_count l = length (filter is_card_unplanned (list_cards l))"

subsection \<open>An environment and a board for the examples\<close>

text \<open>
  A small stand-in for \<^verbatim>\<open>urllib.parse\<close> on plain URLs without escapes: the query is what
  stands between the first \<^verbatim>\<open>?\<close> and the fragment, its fields are separated by \<^verbatim>\<open>&\<close>, a
  field is a name and a value separated by the first \<^verbatim>\<open>=\<close>, and a field with a blank value
  is dropped. \<open>demo_int\<close> reads a non-empty string of decimal digits. The theorems below
  hold for every environment; this one is used where an example has to be computed.
\<close>

definition demo_urlparse_query :: "string \<Rightarrow> string" where
  "demo_urlparse_query url =
     drop 1 (dropWhile (\<lambda>c. c \<noteq> CHR ''?'') (takeWhile (\<lambda>c. c \<noteq> CHR ''#'') url))"

fun split_on :: "char \<Rightarrow> string \<Rightarrow> string \<Rightarrow> string list" where
  "split_on d cur [] = [cur]"
| "split_on d cur (c # cs) =
     (if c = d then cur # split_on d [] cs else split_on d (cur @ [c]) cs)"

definition demo_parse_qs :: "string \<Rightarrow> (string \<rightharpoonup> string list)" where
  "demo_parse_qs q k =
     (case [drop 1 (dropWhile (\<lambda>c. c \<noteq> CHR ''='') f).
              f \<leftarrow> split_on CHR ''&'' [] q,
              takeWhile (\<lambda>c. c \<noteq> CHR ''='') f = k,
              drop 1 (dropWhile (\<lambda>c. c \<noteq> CHR ''='') f) \<noteq> []] of
        [] \<Rightarrow> None
      | v # vs \<Rightarrow> Some (v # vs))"

definition demo_int :: "string \<Rightarrow> pyerror + int" where
  "demo_int s =
     (if s \<noteq> [] \<and> list_all (\<lambda>c. 48 \<le> (of_char c :: nat) \<and> (of_char c :: nat) \<le> 57) s
      then Inr (foldl (\<lambda>n c. 10 * n + (int (of_char c) - 48)) 0 s)
      else Inl ValueError)"

definition demo_env :: env where
  "demo_env =
     \<lparr>member_full_name = (\<lambda>mid. ''Member '' @ mid),
      urlparse_query = demo_urlparse_query,
      parse_qs = demo_parse_qs,
      bz_logged_in = True,
      bug_pm_score = (\<lambda>i. if i = ''12345'' then ''900'' else ''0''),
      py_int = demo_int\<rparr>"

definition card_fix :: card where
  "card_fix =
     \<lparr>card_name = ''Fix login'',
      labels = Some [\<lparr>label_name = ''bug''\<rparr>, \<lparr>label_name = ''Unplanned''\<rparr>],
      custom_fields =
        [\<lparr>cf_name = ''bugzilla'',
          cf_value = Some ''https://bugzilla.redhat.com/show_bug.cgi?id=12345''\<rparr>],
      member_id = Some [''m1'', ''m2'']\<rparr>"

definition card_docs :: card where
  "card_docs =
     \<lparr>card_name = ''Write docs'',
      labels = None,
      custom_fields = [],
      member_id = Some [''m1'']\<rparr>"

definition card_two_refs :: card where
  "card_two_refs =
     \<lparr>card_name = ''Two references'',
      labels = Some [],
      custom_fields =
        [\<lparr>cf_name = ''BUGZILLA'',
          cf_value = Some ''https://bugzilla.redhat.com/show_bug.cgi?id=1''\<rparr>,
         \<lparr>cf_name = ''Estimate'', cf_value = Some ''3''\<rparr>,
         \<lparr>cf_name = ''Bugzilla'',
          cf_value = Some ''https://bugzilla.redhat.com/show_bug.cgi?id=2''\<rparr>],
      member_id = None\<rparr>"

definition card_bad_ref :: card where
  "card_bad_ref =
     \<lparr>card_name = ''Bad reference'',
      labels = Some [\<lparr>label_name = ''UNPLANNED''\<rparr>],
      custom_fields =
        [\<lparr>cf_name = ''Bugzilla'',
          cf_value = Some ''https://bugzilla.redhat.com/show_bug.cgi?bug=7''\<rparr>],
      member_id = Some []\<rparr>"

definition demo_lists :: "worklist list" where
  "demo_lists =
     [\<lparr>list_name = ''Backlog'', list_cards = [card_docs, card_bad_ref, card_fix]\<rparr>,
      \<lparr>list_name = ''Sprint Backlog'', list_cards = [card_two_refs]\<rparr>,
      \<lparr>list_name = ''Doing'', list_cards = [card_fix]\<rparr>,
      \<lparr>list_name = ''In review'', list_cards = []\<rparr>,
      \<lparr>list_name = ''Done'', list_cards = [card_docs, card_fix, card_bad_ref]\<rparr>]"

text \<open>
  Three boards: one without the lists In Review and Done, one without the list Backlog
  (its list Sprint Backlog is another list), and a complete one.
\<close>

definition demo_boards :: "board list" where
  "demo_boards =
     [\<lparr>board_name = ''Team A'', list_lists = take 3 demo_lists\<rparr>,
      \<lparr>board_name = ''Team B'', list_lists = drop 1 demo_lists\<rparr>,
      \<lparr>board_name = ''Team C'', list_lists = demo_lists\<rparr>]"

text \<open>A sprint in which the two planned cards are done and nothing else is on the board.\<close>

definition finished_lists :: "worklist list" where
  "finished_lists =
     [\<lparr>list_name = ''Sprint Backlog'', list_cards = []\<rparr>,
      \<lparr>list_name = ''Doing'', list_cards = []\<rparr>,
      \<lparr>list_name = ''In Review'', list_cards = []\<rparr>,
      \<lparr>list_name = ''Done'', list_cards = [card_docs, card_two_refs]\<rparr>]"

text \<open>The unit that \<^verbatim>\<open>parse_cards_from_list\<close> builds for a card when members are not included.\<close>

definition demo_unit :: "card \<Rightarrow> work_unit" where
  "demo_unit c =
     \<lparr>unit_object = c,
      unit_members = [],
      unit_unplanned = is_card_unplanned c,
      unit_bugzilla = bugzilla_loop (custom_fields c) None,
      unit_name = card_name c\<rparr>"

text \<open>The state in which a run starts, with and without \<^verbatim>\<open>--include-members\<close>.\<close>

definition start :: "bool \<Rightarrow> state" where
  "start include_members =
     \<lparr>INCLUDE_MEMBERS = include_members, MEMBERS_CACHE = Map.empty, trace = []\<rparr>"

section \<open>Properties\<close>

subsection \<open>Comparing strings without their case\<close>

lemma of_char_upper_char:
  "(of_char (upper_char c) :: nat) =
     (if 97 \<le> (of_char c :: nat) \<and> (of_char c :: nat) \<le> 122 then of_char c - 32 else of_char c)"
proof -
  define n where "n = (of_char c :: nat)"
  have u: "(of_char (upper_char c) :: nat) = (if 97 \<le> n \<and> n \<le> 122 then (n - 32) mod 256 else n)"
    by (simp add: upper_char_def Let_def n_def)
  have "(if 97 \<le> n \<and> n \<le> 122 then (n - 32) mod 256 else n)
          = (if 97 \<le> n \<and> n \<le> 122 then n - 32 else n)"
  proof (cases "97 \<le> n \<and> n \<le> 122")
    case True
    then have "n - 32 < 256" by linarith
    then have "(n - 32) mod 256 = n - 32" by (rule mod_less)
    then show ?thesis by (simp only:)
  next
    case False
    then show ?thesis by (simp only: if_False)
  qed
  with u show ?thesis by (simp only: n_def)
qed


lemma upper_char_eq_iff: "upper_char c = upper_char d \<longleftrightarrow> same_letter c d"
proof -
  define n m where "n = (of_char c :: nat)" and "m = (of_char d :: nat)"
  have e: "c = d \<longleftrightarrow> n = m" by (simp add: n_def m_def)
  have "upper_char c = upper_char d
          \<longleftrightarrow> (of_char (upper_char c) :: nat) = of_char (upper_char d)" by simp
  also have "\<dots> \<longleftrightarrow> (if 97 \<le> n \<and> n \<le> 122 then n - 32 else n)
                        = (if 97 \<le> m \<and> m \<le> 122 then m - 32 else m)"
    by (simp only: of_char_upper_char n_def m_def)
  also have "\<dots> \<longleftrightarrow> n = m \<or> (65 \<le> n \<and> n \<le> 90 \<and> m = n + 32)
                        \<or> (65 \<le> m \<and> m \<le> 90 \<and> n = m + 32)"
    by (auto split: if_splits)
  also have "\<dots> \<longleftrightarrow> same_letter c d"
    by (simp only: same_letter_def is_upper_letter_def e n_def [symmetric] m_def [symmetric]
          conj_assoc)
  finally show ?thesis .
qed


lemma map_eq_map_list_all2: "map f xs = map f ys \<longleftrightarrow> list_all2 (\<lambda>x y. f x = f y) xs ys"
proof (induction xs arbitrary: ys)
  case Nil
  then show ?case by auto
next
  case (Cons x xs)
  then show ?case by (cases ys) auto
qed

lemma upper_eq_iff: "upper s = upper t \<longleftrightarrow> equal_ignoring_case s t"
  by (simp add: upper_def equal_ignoring_case_def map_eq_map_list_all2 upper_char_eq_iff)


lemma upper_UNPLANNED: "upper s = LABEL_UNPLANNED \<longleftrightarrow> equal_ignoring_case s ''UNPLANNED''"
proof -
  have "upper ''UNPLANNED'' = LABEL_UNPLANNED"
    by (simp add: upper_def upper_char_def LABEL_UNPLANNED_def)
  then show ?thesis using upper_eq_iff [of s "''UNPLANNED''"] by simp
qed


subsection \<open>List lookup\<close>


lemma find_Some_first:
  "find P xs = Some x \<longleftrightarrow>
     (\<exists>pre post. xs = pre @ x # post \<and> P x \<and> (\<forall>y \<in> set pre. \<not> P y))"
proof (induction xs)
  case Nil
  then show ?case by simp
next
  case (Cons a xs)
  show ?case
  proof (cases "P a")
    case True
    have "(\<exists>pre post. a # xs = pre @ x # post \<and> P x \<and> (\<forall>y \<in> set pre. \<not> P y)) \<longleftrightarrow> a = x"
    proof
      assume "\<exists>pre post. a # xs = pre @ x # post \<and> P x \<and> (\<forall>y \<in> set pre. \<not> P y)"
      then obtain pre post where p: "a # xs = pre @ x # post"
        and q: "\<forall>y \<in> set pre. \<not> P y" by blast
      show "a = x"
      proof (cases pre)
        case Nil
        with p show ?thesis by simp
      next
        case (Cons y ys)
        with p have "y = a" by simp
        with Cons q True show ?thesis by simp
      qed
    next
      assume "a = x"
      with True have "a # xs = [] @ x # xs \<and> P x \<and> (\<forall>y \<in> set []. \<not> P y)" by simp
      then show "\<exists>pre post. a # xs = pre @ x # post \<and> P x \<and> (\<forall>y \<in> set pre. \<not> P y)"
        by blast
    qed
    with True show ?thesis by simp
  next
    case False
    have "(\<exists>pre post. a # xs = pre @ x # post \<and> P x \<and> (\<forall>y \<in> set pre. \<not> P y))
          \<longleftrightarrow> (\<exists>pre post. xs = pre @ x # post \<and> P x \<and> (\<forall>y \<in> set pre. \<not> P y))"
    proof
      assume "\<exists>pre post. a # xs = pre @ x # post \<and> P x \<and> (\<forall>y \<in> set pre. \<not> P y)"
      then obtain pre post where p: "a # xs = pre @ x # post" and n: "P x"
        and q: "\<forall>y \<in> set pre. \<not> P y" by blast
      from p n False obtain pre' where pre: "pre = a # pre'"
        by (cases pre) auto
      with p q have "xs = pre' @ x # post \<and> (\<forall>y \<in> set pre'. \<not> P y)" by simp
      with n show "\<exists>pre post. xs = pre @ x # post \<and> P x \<and> (\<forall>y \<in> set pre. \<not> P y)"
        by blast
    next
      assume "\<exists>pre post. xs = pre @ x # post \<and> P x \<and> (\<forall>y \<in> set pre. \<not> P y)"
      then obtain pre post where p: "xs = pre @ x # post" and n: "P x"
        and q: "\<forall>y \<in> set pre. \<not> P y" by blast
      from p q False n
      have "a # xs = (a # pre) @ x # post \<and> P x \<and> (\<forall>y \<in> set (a # pre). \<not> P y)" by simp
      then show "\<exists>pre post. a # xs = pre @ x # post \<and> P x \<and> (\<forall>y \<in> set pre. \<not> P y)"
        by blast
    qed
    with False Cons.IH show ?thesis by simp
  qed
qed

lemma get_board_find: "get_board boards name = find (\<lambda>b. board_name b = name) boards"
  by (induction boards) simp_all






subsection \<open>Rounding to binary64\<close>

lemma ilog2_bounds:
  assumes "0 < q"
  shows "power_int 2 (ilog2 q) \<le> q \<and> q < power_int 2 (ilog2 q + 1)"
proof -
  obtain a b where ab: "quotient_of q = (a, b)" by (cases "quotient_of q")
  then have b: "0 < b" by (rule quotient_of_denom_pos)
  from ab have q: "q = of_int a / of_int b" by (rule quotient_of_div)
  with assms b have a: "0 < a" by (simp add: zero_less_divide_iff)
  define d where "d = bitlen a - bitlen b"
  from bitlen_bounds [OF a] have a1: "2 ^ nat (bitlen a - 1) \<le> a" and a2: "a < 2 ^ nat (bitlen a)"
    by auto
  from bitlen_bounds [OF b] have b1: "2 ^ nat (bitlen b - 1) \<le> b" and b2: "b < 2 ^ nat (bitlen b)"
    by auto
  have la: "1 \<le> bitlen a" using a by (simp add: bitlen_alt_def)
  have lb: "1 \<le> bitlen b" using b by (simp add: bitlen_alt_def)
  have ra1: "(power_int 2 (bitlen a - 1) :: rat) \<le> of_int a"
  proof -
    have "(of_int (2 ^ nat (bitlen a - 1)) :: rat) \<le> of_int a" using a1 by (simp only: of_int_le_iff)
    then show ?thesis using la by (simp add: power_int_def)
  qed
  have ra2: "(of_int a :: rat) < power_int 2 (bitlen a)"
  proof -
    have "(of_int a :: rat) < of_int (2 ^ nat (bitlen a))" using a2 by (simp only: of_int_less_iff)
    then show ?thesis using la by (simp add: power_int_def)
  qed
  have rb1: "(power_int 2 (bitlen b - 1) :: rat) \<le> of_int b"
  proof -
    have "(of_int (2 ^ nat (bitlen b - 1)) :: rat) \<le> of_int b" using b1 by (simp only: of_int_le_iff)
    then show ?thesis using lb by (simp add: power_int_def)
  qed
  have rb2: "(of_int b :: rat) < power_int 2 (bitlen b)"
  proof -
    have "(of_int b :: rat) < of_int (2 ^ nat (bitlen b))" using b2 by (simp only: of_int_less_iff)
    then show ?thesis using lb by (simp add: power_int_def)
  qed
  have rb: "(0 :: rat) < of_int b" using b by simp
  have up: "q < power_int 2 (d + 1)"
  proof -
    have "of_int a * power_int 2 (bitlen b - 1) < power_int 2 (bitlen a) * (of_int b :: rat)"
    proof -
      have "of_int a * power_int 2 (bitlen b - 1) \<le> of_int a * (of_int b :: rat)"
        using rb1 a by (simp add: mult_left_mono)
      also have "\<dots> < power_int 2 (bitlen a) * of_int b"
        using ra2 rb by (simp add: mult_strict_right_mono)
      finally show ?thesis .
    qed
    then have "of_int a / (of_int b :: rat) < power_int 2 (bitlen a) / power_int 2 (bitlen b - 1)"
      using rb by (simp add: divide_less_eq less_divide_eq field_simps)
    also have "\<dots> = power_int 2 (d + 1)"
    proof -
      have e: "bitlen a - (bitlen b - 1) = d + 1" by (simp add: d_def)
      have "power_int 2 (bitlen a) / power_int 2 (bitlen b - 1)
              = (power_int 2 (bitlen a - (bitlen b - 1)) :: rat)"
        by (rule power_int_diff [symmetric]) simp
      then show ?thesis by (simp only: e)
    qed
    finally show ?thesis using q by simp
  qed
  have low: "power_int 2 (d - 1) < q"
  proof -
    have "power_int 2 (bitlen a - 1) * (of_int b :: rat) < of_int a * power_int 2 (bitlen b)"
    proof -
      have "power_int 2 (bitlen a - 1) * (of_int b :: rat) \<le> of_int a * of_int b"
        using ra1 rb by (simp add: mult_right_mono)
      also have "\<dots> < of_int a * power_int 2 (bitlen b)"
        using rb2 a by (simp add: mult_strict_left_mono)
      finally show ?thesis .
    qed
    then have "power_int 2 (bitlen a - 1) / power_int 2 (bitlen b) < of_int a / (of_int b :: rat)"
      using rb by (simp add: divide_less_eq less_divide_eq field_simps)
    moreover have "power_int 2 (bitlen a - 1) / power_int 2 (bitlen b) = (power_int 2 (d - 1) :: rat)"
    proof -
      have e: "bitlen a - 1 - bitlen b = d - 1" by (simp add: d_def)
      have "power_int 2 (bitlen a - 1) / power_int 2 (bitlen b)
              = (power_int 2 (bitlen a - 1 - bitlen b) :: rat)"
        by (rule power_int_diff [symmetric]) simp
      then show ?thesis by (simp only: e)
    qed
    ultimately show ?thesis using q by simp
  qed
  have il: "ilog2 q = (if power_int 2 d \<le> q then d else d - 1)"
    by (simp add: ilog2_def ab d_def Let_def)
  show ?thesis
  proof (cases "power_int 2 d \<le> q")
    case True
    with il up show ?thesis by simp
  next
    case False
    with il low show ?thesis by simp
  qed
qed


lemma ilog2_eqI:
  assumes "0 < q" and "power_int 2 e \<le> q" and "q < power_int 2 (e + 1)"
  shows "ilog2 q = e"
proof -
  from ilog2_bounds [OF assms(1)]
  have l: "power_int 2 (ilog2 q) \<le> q" and u: "q < power_int 2 (ilog2 q + 1)" by auto
  have "ilog2 q < e + 1"
  proof (rule ccontr)
    assume "\<not> ilog2 q < e + 1"
    then have "e + 1 \<le> ilog2 q" by simp
    then have "(power_int 2 (e + 1) :: rat) \<le> power_int 2 (ilog2 q)"
      by (rule power_int_increasing) simp
    with l assms(3) show False by simp
  qed
  moreover have "e < ilog2 q + 1"
  proof (rule ccontr)
    assume "\<not> e < ilog2 q + 1"
    then have "ilog2 q + 1 \<le> e" by simp
    then have "(power_int 2 (ilog2 q + 1) :: rat) \<le> power_int 2 e"
      by (rule power_int_increasing) simp
    with u assms(2) show False by simp
  qed
  ultimately show ?thesis by simp
qed

lemma round_half_even_of_int: "round_half_even (of_int n) = n"
  by (simp add: round_half_even_def)

lemma floor_le_round_half_even: "\<lfloor>q\<rfloor> \<le> round_half_even q"
  by (simp add: round_half_even_def Let_def)

lemma round_double_of_nat_exact:
  assumes "0 < n" and "n < 2 ^ 53"
  shows "round_double (of_int n) = Finite (of_int n)"
proof -
  let ?q = "of_int n :: rat"
  have q: "0 < ?q" using assms(1) by simp
  have k: "ilog2 ?q \<le> 52"
  proof (rule ccontr)
    assume "\<not> ilog2 ?q \<le> 52"
    then have "53 \<le> ilog2 ?q" by simp
    then have "(power_int 2 53 :: rat) \<le> power_int 2 (ilog2 ?q)"
      by (rule power_int_increasing) simp
    also have "\<dots> \<le> ?q" using ilog2_bounds [OF q] by simp
    finally have "(of_int (2 ^ 53) :: rat) \<le> of_int n" by simp
    then have "(2 ^ 53 :: int) \<le> n" by (simp only: of_int_le_iff)
    with assms(2) show False by simp
  qed
  define e where "e = max (ilog2 ?q - 52) (- 1074)"
  have e: "e \<le> 0" using k by (simp add: e_def)
  have p: "(power_int 2 e :: rat) = inverse (2 ^ nat (- e))"
  proof -
    have "power_int 2 e = inverse (power_int (2 :: rat) (- e))"
      using power_int_minus [of "2 :: rat" "- e"] by simp
    moreover have "power_int (2 :: rat) (- e) = 2 ^ nat (- e)"
      using e by (simp add: power_int_def)
    ultimately show ?thesis by simp
  qed
  have d: "?q / power_int 2 e = of_int (n * 2 ^ nat (- e))"
    by (simp add: p divide_inverse)
  have m: "round_half_even (?q / power_int 2 e) = n * 2 ^ nat (- e)"
    by (simp only: d round_half_even_of_int)
  have r: "of_int (n * 2 ^ nat (- e)) * (power_int 2 e :: rat) = ?q"
    by (simp add: p)
  have lt: "\<not> (2 ^ 1024 :: rat) \<le> ?q"
  proof -
    have "n < 2 ^ 1024" using assms(2) by simp
    then have "(of_int n :: rat) < of_int (2 ^ 1024)" by (simp only: of_int_less_iff)
    then show ?thesis by simp
  qed
  have a: "\<bar>?q\<bar> = ?q" using assms(1) by simp
  show ?thesis
    unfolding round_double_def Let_def a e_def [symmetric] m r
    using q lt by simp
qed


lemma py_float_exact:
  assumes "0 \<le> n" and "n < 2 ^ 53"
  shows "py_float n = Inr (Finite (of_int n))"
proof (cases "n = 0")
  case True
  then show ?thesis by (simp add: py_float_def round_double_def)
next
  case False
  with assms have "round_double (of_int n) = Finite (of_int n)"
    by (intro round_double_of_nat_exact) simp_all
  then show ?thesis by (simp add: py_float_def)
qed

lemma round_double_positive:
  assumes "1 \<le> q"
  shows "round_double q = PosInf \<or> (\<exists>r. round_double q = Finite r \<and> 0 < r)"
proof -
  have q: "0 < q" using assms by simp
  have k: "0 \<le> ilog2 q"
  proof (rule ccontr)
    assume "\<not> 0 \<le> ilog2 q"
    then have "ilog2 q + 1 \<le> 0" by simp
    then have "(power_int 2 (ilog2 q + 1) :: rat) \<le> power_int 2 0"
      by (rule power_int_increasing) simp
    with ilog2_bounds [OF q] assms show False by simp
  qed
  define e where "e = max (ilog2 q - 52) (- 1074)"
  have e: "e = ilog2 q - 52" using k by (simp add: e_def)
  define m where "m = round_half_even (q / power_int 2 e)"
  have "(power_int 2 52 :: rat) = power_int 2 (ilog2 q - e)" by (simp add: e)
  also have "\<dots> = power_int 2 (ilog2 q) / power_int 2 e"
    by (rule power_int_diff) simp
  also have "\<dots> \<le> q / power_int 2 e"
    using ilog2_bounds [OF q] by (simp add: divide_right_mono)
  finally have "(of_int (2 ^ 52) :: rat) \<le> q / power_int 2 e" by simp
  then have "(2 ^ 52 :: int) \<le> \<lfloor>q / power_int 2 e\<rfloor>" by (simp only: le_floor_iff)
  also have "\<dots> \<le> m" unfolding m_def by (rule floor_le_round_half_even)
  finally have m: "0 < m" by simp
  then have r: "0 < of_int m * (power_int 2 e :: rat)" by simp
  have a: "\<bar>q\<bar> = q" using q by simp
  show ?thesis
    unfolding round_double_def Let_def a e_def [symmetric] m_def [symmetric]
    using q r by simp
qed

lemma py_float_positive:
  assumes "0 < n" and "py_float n = Inr y"
  shows "\<exists>r. y = Finite r \<and> 0 < r"
proof -
  have "(1 :: rat) \<le> of_int n" using assms(1) by simp
  from round_double_positive [OF this] show ?thesis
  proof
    assume "round_double (of_int n) = PosInf"
    with assms(2) show ?thesis by (simp add: py_float_def)
  next
    assume "\<exists>r. round_double (of_int n) = Finite r \<and> 0 < r"
    then obtain r where r: "round_double (of_int n) = Finite r" and p: "0 < r" by blast
    from r have "py_float n = Inr (Finite r)" by (simp add: py_float_def)
    with assms(2) have "y = Finite r" by simp
    with p show ?thesis by blast
  qed
qed

lemma py_float_zero: "py_float 0 = Inr (Finite 0)"
  by (simp add: py_float_def round_double_def)

lemma percentage_zero_whole:
  assumes "py_float part = Inr x"
  shows "percentage part 0 = Inr (Finite 100)"
proof -
  have "float_div (float_mul (Finite 100) x) (Finite 0) = Inl ZeroDivisionError" by simp
  with assms show ?thesis by (simp add: percentage_def py_float_zero Let_def)
qed

lemma percentage_zero_part:
  assumes "0 < whole" and "py_float whole = Inr y"
  shows "percentage 0 whole = Inr (Finite 0)"
proof -
  from py_float_positive [OF assms] obtain r where y: "y = Finite r" and r: "0 < r" by blast
  have "float_mul (Finite 100) (Finite 0) = Finite 0" by (simp add: round_double_def)
  moreover have "float_div (Finite 0) (Finite r) = Inr (Finite 0)"
    using r by (simp add: round_double_def)
  ultimately show ?thesis using assms(2) y
    by (simp add: percentage_def py_float_zero Let_def)
qed

lemma percentage_whole_whole:
  assumes "0 < whole" and "100 * whole < 2 ^ 53"
  shows "percentage whole whole = Inr (Finite 100)"
proof -
  have w: "py_float whole = Inr (Finite (of_int whole))"
    using assms by (intro py_float_exact) simp_all
  have "float_mul (Finite 100) (Finite (of_int whole)) = round_double (of_int (100 * whole))"
    by simp
  also have "\<dots> = Finite (of_int (100 * whole))"
    using assms by (intro round_double_of_nat_exact) simp_all
  finally have m: "float_mul (Finite 100) (Finite (of_int whole)) = Finite (of_int (100 * whole))" .
  have "round_double (of_int 100) = Finite (of_int 100)"
    by (rule round_double_of_nat_exact) simp_all
  then have h: "round_double 100 = Finite 100" by simp
  have "float_div (Finite (of_int (100 * whole))) (Finite (of_int whole)) = Inr (round_double 100)"
    using assms(1) by simp
  with h have d: "float_div (Finite (of_int (100 * whole))) (Finite (of_int whole)) = Inr (Finite 100)"
    by simp
  show ?thesis
    by (simp only: percentage_def w m d Let_def sum.case)
qed

lemma round_half_even_down:
  assumes "of_int f \<le> q" and "q - of_int f < 1 / 2"
  shows "round_half_even q = f"
proof -
  from assms have "\<lfloor>q\<rfloor> = f" by (intro floor_unique) simp_all
  with assms(2) show ?thesis by (simp add: round_half_even_def)
qed

lemma round_double_positive_eval:
  assumes "0 < q" and "ilog2 q = k" and "max (k - 52) (- 1074) = e"
    and "round_half_even (q / power_int 2 e) = m"
  shows "round_double q =
           (if (2 ^ 1024 :: rat) \<le> of_int m * power_int 2 e then PosInf
            else Finite (of_int m * power_int 2 e))"
proof -
  have a: "\<bar>q\<bar> = q" using assms(1) by simp
  show ?thesis
    unfolding round_double_def Let_def a assms(2) assms(3) assms(4)
    using assms(1) by simp
qed


subsection \<open>Board lookup\<close>

lemma get_board_None_iff:
  "get_board boards name = None \<longleftrightarrow> (\<forall>b \<in> set boards. board_name b \<noteq> name)"
  by (induction boards) auto

lemma get_board_Some_iff:
  "get_board boards name = Some b \<longleftrightarrow>
     (\<exists>pre post. boards = pre @ b # post \<and> board_name b = name
        \<and> (\<forall>x \<in> set pre. board_name x \<noteq> name))"
  by (simp only: get_board_find find_Some_first)

subsection \<open>The percentage\<close>

lemma py_float_not_overflow:
  assumes "py_float n \<noteq> Inl OverflowError"
  shows "\<exists>x. py_float n = Inr x"
  using assms by (cases "round_double (of_int n)") (simp_all add: py_float_def)

lemma percentage_huge_part: "percentage (2 ^ 1024) 0 = Inl OverflowError"
proof -
  have k: "ilog2 (2 ^ 1024 :: rat) = 1024"
    by (rule ilog2_eqI) simp_all
  have "(2 ^ 1024 :: rat) / power_int 2 972 = of_int (2 ^ 52)" by simp
  then have m: "round_half_even ((2 ^ 1024 :: rat) / power_int 2 972) = 2 ^ 52"
    by (simp only: round_half_even_of_int)
  from round_double_positive_eval [OF _ k _ m]
  have "round_double (2 ^ 1024) = PosInf" by simp
  then show ?thesis by (simp add: percentage_def py_float_def)
qed

lemma percentage_inexact:
  "percentage 6755399441055751 6755399441055751
     = Inr (Finite (7036874417766399 / 70368744177664))"
proof -
  have x: "py_float 6755399441055751 = Inr (Finite 6755399441055751)"
    using py_float_exact [of 6755399441055751] by simp
  have k: "ilog2 (675539944105575100 :: rat) = 59"
    by (rule ilog2_eqI) simp_all
  have "round_half_even ((675539944105575100 :: rat) / power_int 2 7) = 5277655813324805"
    by (rule round_half_even_down) simp_all
  from round_double_positive_eval [OF _ k _ this]
  have m: "round_double 675539944105575100 = Finite 675539944105575040" by simp
  have k': "ilog2 (675539944105575040 / 6755399441055751 :: rat) = 6"
    by (rule ilog2_eqI) simp_all
  have "round_half_even ((675539944105575040 / 6755399441055751 :: rat) / power_int 2 (- 46))
          = 7036874417766399"
    by (rule round_half_even_down) simp_all
  from round_double_positive_eval [OF _ k' _ this]
  have d: "round_double (675539944105575040 / 6755399441055751)
             = Finite (7036874417766399 / 70368744177664)" by simp
  show ?thesis by (simp add: percentage_def x m d)
qed

text \<open>
  C3, as stated, fails: \<^verbatim>\<open>percentage(2**1024, 0)\<close> does not return 100, because
  \<^verbatim>\<open>float(2**1024)\<close> raises \<^verbatim>\<open>OverflowError\<close>, which the handler does not catch; and
  \<^verbatim>\<open>percentage(w, w)\<close> for \<open>w = 6755399441055751\<close> is \<open>100 - 2\<^sup>-\<^sup>4\<^sup>6\<close>, because the product
  \<open>100 * w\<close> is rounded before it is divided.
\<close>

theorem percentage_counterexample:
  "percentage (2 ^ 1024) 0 = Inl OverflowError
   \<and> percentage (2 ^ 1024) 0 \<noteq> Inr (Finite 100)
   \<and> percentage 6755399441055751 6755399441055751
        = Inr (Finite (7036874417766399 / 70368744177664))
   \<and> percentage 6755399441055751 6755399441055751 \<noteq> Inr (Finite 100)"
  using percentage_huge_part percentage_inexact by simp

text \<open>
  C3 (amended): \<^verbatim>\<open>percentage(part, 0)\<close> is 100 for every integer \<open>part\<close> that \<^verbatim>\<open>float\<close>
  converts without \<^verbatim>\<open>OverflowError\<close>; \<^verbatim>\<open>percentage(0, whole)\<close> is 0 for every \<open>whole > 0\<close>
  that \<^verbatim>\<open>float\<close> converts without \<^verbatim>\<open>OverflowError\<close>; and \<^verbatim>\<open>percentage(whole, whole)\<close> is 100
  for every \<open>whole > 0\<close> with \<open>100 * whole < 2\<^sup>5\<^sup>3\<close>, where the product is exact.
\<close>

theorem percentage_cases:
  "(py_float part \<noteq> Inl OverflowError \<longrightarrow> percentage part 0 = Inr (Finite 100))
   \<and> (0 < whole \<and> py_float whole \<noteq> Inl OverflowError
        \<longrightarrow> percentage 0 whole = Inr (Finite 0))
   \<and> (0 < whole \<and> 100 * whole < 2 ^ 53 \<longrightarrow> percentage whole whole = Inr (Finite 100))"
proof (intro conjI impI)
  assume "py_float part \<noteq> Inl OverflowError"
  then obtain x where "py_float part = Inr x" using py_float_not_overflow by blast
  then show "percentage part 0 = Inr (Finite 100)" by (rule percentage_zero_whole)
next
  assume "0 < whole \<and> py_float whole \<noteq> Inl OverflowError"
  then obtain y where "0 < whole" and "py_float whole = Inr y"
    using py_float_not_overflow by blast
  then show "percentage 0 whole = Inr (Finite 0)" by (rule percentage_zero_part)
next
  assume "0 < whole \<and> 100 * whole < 2 ^ 53"
  then show "percentage whole whole = Inr (Finite 100)"
    by (simp add: percentage_whole_whole)
qed

theorem percentage_cases_witness:
  "py_float 7 \<noteq> Inl OverflowError \<and> percentage 7 0 = Inr (Finite 100)
   \<and> (0 :: int) < 5 \<and> py_float 5 \<noteq> Inl OverflowError \<and> percentage 0 5 = Inr (Finite 0)
   \<and> (100 :: int) * 5 < 2 ^ 53 \<and> percentage 5 5 = Inr (Finite 100)"
proof -
  have a: "py_float 7 \<noteq> Inl OverflowError" using py_float_exact [of 7] by simp
  have b: "py_float 5 \<noteq> Inl OverflowError" using py_float_exact [of 5] by simp
  show ?thesis using a b percentage_cases [of 7 5] by simp
qed

subsection \<open>Board lookup is exact\<close>

text \<open>
  C10: \<^verbatim>\<open>get_board\<close> compares the names with \<^verbatim>\<open>==\<close>, so with their case: it returns the first
  open board whose name is the requested one, and \<^verbatim>\<open>None\<close>, without raising, when no open
  board has exactly that name (also when one differs from it in case only).
\<close>

theorem get_board_exact:
  "(get_board boards name = Some b \<longleftrightarrow>
      (\<exists>pre post. boards = pre @ b # post \<and> board_name b = name
         \<and> (\<forall>x \<in> set pre. board_name x \<noteq> name)))
   \<and> (get_board boards name = None \<longleftrightarrow> (\<forall>x \<in> set boards. board_name x \<noteq> name))
   \<and> get_board [\<lparr>board_name = ''Sprint'', list_lists = []\<rparr>] ''sprint'' = None"
  by (simp add: get_board_Some_iff get_board_None_iff)

theorem get_board_exact_witness:
  "get_board [\<lparr>board_name = ''A'', list_lists = []\<rparr>, \<lparr>board_name = ''B'', list_lists = []\<rparr>,
              \<lparr>board_name = ''B'', list_lists = [\<lparr>list_name = ''Done'', list_cards = []\<rparr>]\<rparr>] ''B''
     = Some \<lparr>board_name = ''B'', list_lists = []\<rparr>
   \<and> get_board [\<lparr>board_name = ''A'', list_lists = []\<rparr>] ''a'' = None"
  using get_board_exact [of "[\<lparr>board_name = ''A'', list_lists = []\<rparr>]" "''a''"]
  by simp

subsection \<open>Classifying the cards of a list\<close>

lemma unplanned_loop_iff:
  "unplanned_loop ls \<longleftrightarrow> (\<exists>l \<in> set ls. equal_ignoring_case (label_name l) ''UNPLANNED'')"
  by (induction ls) (simp_all add: upper_UNPLANNED)


lemma cards_loop_objects:
  assumes "cards_loop env cs acc st = (res, st')"
  shows "map unit_object (planned res)
           = map unit_object (planned acc) @ filter (\<lambda>c. \<not> is_card_unplanned c) cs
         \<and> map unit_object (unplanned res)
           = map unit_object (unplanned acc) @ filter is_card_unplanned cs"
  using assms
proof (induction cs arbitrary: acc st)
  case Nil
  then show ?case by simp
next
  case (Cons c cs)
  obtain members st1 where m: "list_members_from_card env c st = (members, st1)"
    by (cases "list_members_from_card env c st")
  show ?case
  proof (cases "is_card_unplanned c")
    case True
    with Cons.prems m Cons.IH show ?thesis by (simp add: Let_def)
  next
    case False
    with Cons.prems m Cons.IH show ?thesis by (simp add: Let_def)
  qed
qed

lemma cards_loop_flags:
  assumes "cards_loop env cs acc st = (res, st')"
    and "\<forall>u \<in> set (planned acc). \<not> unit_unplanned u"
    and "\<forall>u \<in> set (unplanned acc). unit_unplanned u"
  shows "(\<forall>u \<in> set (planned res). \<not> unit_unplanned u)
         \<and> (\<forall>u \<in> set (unplanned res). unit_unplanned u)"
  using assms
proof (induction cs arbitrary: acc st)
  case Nil
  then show ?case by simp
next
  case (Cons c cs)
  obtain members st1 where m: "list_members_from_card env c st = (members, st1)"
    by (cases "list_members_from_card env c st")
  show ?case
  proof (cases "is_card_unplanned c")
    case True
    with Cons.prems m show ?thesis
      by (intro Cons.IH [where acc = "acc\<lparr>unplanned := unplanned acc @
            [\<lparr>unit_object = c, unit_members = members, unit_unplanned = True,
              unit_bugzilla = bugzilla_loop (custom_fields c) None,
              unit_name = card_name c\<rparr>]\<rparr>" and st = st1])
         (simp_all add: Let_def)
  next
    case False
    with Cons.prems m show ?thesis
      by (intro Cons.IH [where acc = "acc\<lparr>planned := planned acc @
            [\<lparr>unit_object = c, unit_members = members, unit_unplanned = False,
              unit_bugzilla = bugzilla_loop (custom_fields c) None,
              unit_name = card_name c\<rparr>]\<rparr>" and st = st1])
         (simp_all add: Let_def)
  qed
qed

lemma cards_loop_fields:
  assumes "cards_loop env cs acc st = (res, st')"
    and "\<forall>u \<in> set (planned acc @ unplanned acc).
           unit_unplanned u = is_card_unplanned (unit_object u)
           \<and> unit_bugzilla u = bugzilla_loop (custom_fields (unit_object u)) None
           \<and> unit_name u = card_name (unit_object u)"
  shows "\<forall>u \<in> set (planned res @ unplanned res).
           unit_unplanned u = is_card_unplanned (unit_object u)
           \<and> unit_bugzilla u = bugzilla_loop (custom_fields (unit_object u)) None
           \<and> unit_name u = card_name (unit_object u)"
  using assms
proof (induction cs arbitrary: acc st)
  case Nil
  then show ?case by simp
next
  case (Cons c cs)
  obtain members st1 where m: "list_members_from_card env c st = (members, st1)"
    by (cases "list_members_from_card env c st")
  show ?case
  proof (cases "is_card_unplanned c")
    case True
    with Cons.prems m show ?thesis
      by (intro Cons.IH [where acc = "acc\<lparr>unplanned := unplanned acc @
            [\<lparr>unit_object = c, unit_members = members, unit_unplanned = True,
              unit_bugzilla = bugzilla_loop (custom_fields c) None,
              unit_name = card_name c\<rparr>]\<rparr>" and st = st1])
         (auto simp: Let_def)
  next
    case False
    with Cons.prems m show ?thesis
      by (intro Cons.IH [where acc = "acc\<lparr>planned := planned acc @
            [\<lparr>unit_object = c, unit_members = members, unit_unplanned = False,
              unit_bugzilla = bugzilla_loop (custom_fields c) None,
              unit_name = card_name c\<rparr>]\<rparr>" and st = st1])
         (auto simp: Let_def)
  qed
qed

lemma parse_cards_from_list_found:
  assumes "get_list ls name = Inr tlist"
  shows "\<exists>cs st'. parse_cards_from_list env ls name st = (Inr cs, st')
           \<and> cards_loop env (list_cards tlist) \<lparr>planned = [], unplanned = []\<rparr> st = (cs, st')"
proof -
  obtain cs st' where
    "cards_loop env (list_cards tlist) \<lparr>planned = [], unplanned = []\<rparr> st = (cs, st')"
    by (cases "cards_loop env (list_cards tlist) \<lparr>planned = [], unplanned = []\<rparr> st")
  with assms show ?thesis by (simp add: parse_cards_from_list_def)
qed


subsection \<open>Resolving members\<close>

lemma members_loop_spec:
  assumes "members_loop env mids acc st = (names, st')"
  shows "names = acc @ map (resolved_name env st) mids
         \<and> MEMBERS_CACHE st' =
             (\<lambda>m. if m \<in> set mids then Some (resolved_name env st m) else MEMBERS_CACHE st m)
         \<and> INCLUDE_MEMBERS st' = INCLUDE_MEMBERS st
         \<and> (\<exists>new. trace st' = trace st @ map MemberFetch new \<and> distinct new
               \<and> set new = set mids - dom (MEMBERS_CACHE st))"
  using assms
proof (induction mids arbitrary: acc st)
  case Nil
  then show ?case by simp
next
  case (Cons mid mids)
  show ?case
  proof (cases "MEMBERS_CACHE st mid")
    case None
    define st2 where "st2 = (emit (MemberFetch mid) st)
      \<lparr>MEMBERS_CACHE := (MEMBERS_CACHE (emit (MemberFetch mid) st))(mid \<mapsto> member_full_name env mid)\<rparr>"
    have c2: "MEMBERS_CACHE st2 = (MEMBERS_CACHE st)(mid \<mapsto> member_full_name env mid)"
      by (simp add: st2_def emit_def)
    have t2: "trace st2 = trace st @ [MemberFetch mid]"
      by (simp add: st2_def emit_def)
    have i2: "INCLUDE_MEMBERS st2 = INCLUDE_MEMBERS st"
      by (simp add: st2_def emit_def)
    have r2: "resolved_name env st2 = resolved_name env st"
      by (rule ext) (simp add: resolved_name_def c2 None)
    from Cons.prems None
    have "members_loop env mids (acc @ [member_full_name env mid]) st2 = (names, st')"
      by (simp add: Let_def st2_def)
    from Cons.IH [OF this]
    have n: "names = (acc @ [member_full_name env mid]) @ map (resolved_name env st2) mids"
      and c: "MEMBERS_CACHE st' =
                (\<lambda>m. if m \<in> set mids then Some (resolved_name env st2 m) else MEMBERS_CACHE st2 m)"
      and i: "INCLUDE_MEMBERS st' = INCLUDE_MEMBERS st2"
      and t: "\<exists>new. trace st' = trace st2 @ map MemberFetch new \<and> distinct new
                 \<and> set new = set mids - dom (MEMBERS_CACHE st2)"
      by blast+
    from t obtain new where new: "trace st' = trace st2 @ map MemberFetch new"
      "distinct new" "set new = set mids - dom (MEMBERS_CACHE st2)" by blast
    have rm: "resolved_name env st mid = member_full_name env mid"
      by (simp add: resolved_name_def None)
    have 1: "names = acc @ map (resolved_name env st) (mid # mids)"
      using n by (simp add: r2 rm)
    have 2: "MEMBERS_CACHE st' =
               (\<lambda>m. if m \<in> set (mid # mids) then Some (resolved_name env st m)
                    else MEMBERS_CACHE st m)"
      by (rule ext) (simp add: c r2 c2 rm)
    have 3: "INCLUDE_MEMBERS st' = INCLUDE_MEMBERS st" using i i2 by simp
    have "trace st' = trace st @ map MemberFetch (mid # new) \<and> distinct (mid # new)
            \<and> set (mid # new) = set (mid # mids) - dom (MEMBERS_CACHE st)"
      using new None by (auto simp: t2 c2)
    then have 4: "\<exists>new. trace st' = trace st @ map MemberFetch new \<and> distinct new
                    \<and> set new = set (mid # mids) - dom (MEMBERS_CACHE st)" by blast
    from 1 2 3 4 show ?thesis by blast
  next
    case (Some cached)
    from Cons.prems Some
    have "members_loop env mids (acc @ [cached]) st = (names, st')" by simp
    from Cons.IH [OF this]
    have n: "names = (acc @ [cached]) @ map (resolved_name env st) mids"
      and c: "MEMBERS_CACHE st' =
                (\<lambda>m. if m \<in> set mids then Some (resolved_name env st m) else MEMBERS_CACHE st m)"
      and i: "INCLUDE_MEMBERS st' = INCLUDE_MEMBERS st"
      and t: "\<exists>new. trace st' = trace st @ map MemberFetch new \<and> distinct new
                 \<and> set new = set mids - dom (MEMBERS_CACHE st)"
      by blast+
    have rm: "resolved_name env st mid = cached"
      by (simp add: resolved_name_def Some)
    have 1: "names = acc @ map (resolved_name env st) (mid # mids)"
      using n by (simp add: rm)
    have 2: "MEMBERS_CACHE st' =
               (\<lambda>m. if m \<in> set (mid # mids) then Some (resolved_name env st m)
                    else MEMBERS_CACHE st m)"
      by (rule ext) (simp add: c rm Some)
    have "set mids - dom (MEMBERS_CACHE st) = set (mid # mids) - dom (MEMBERS_CACHE st)"
      using Some by auto
    with t have 4: "\<exists>new. trace st' = trace st @ map MemberFetch new \<and> distinct new
                    \<and> set new = set (mid # mids) - dom (MEMBERS_CACHE st)" by simp
    from 1 2 i 4 show ?thesis by blast
  qed
qed

lemma lookups_append_fetches:
  assumes "trace st' = trace st @ map MemberFetch new"
  shows "lookups st' = lookups st @ new" and "printed st' = printed st"
proof -
  have "concat (map fetch_id (map MemberFetch new)) = new"
    by (induction new) simp_all
  then show "lookups st' = lookups st @ new" by (simp add: lookups_def assms)
  have "concat (map print_line (map MemberFetch new)) = []"
    by (induction new) simp_all
  then show "printed st' = printed st" by (simp add: printed_def assms)
qed

lemma list_members_from_card_skip:
  assumes "\<not> INCLUDE_MEMBERS st \<or> member_id c = None \<or> member_id c = Some []"
  shows "list_members_from_card env c st = ([], st)"
  using assms by (auto simp: list_members_from_card_def split: option.splits)

lemma list_members_from_card_resolve:
  assumes "INCLUDE_MEMBERS st" and "member_id c = Some mids"
  shows "list_members_from_card env c st = members_loop env mids [] st"
  using assms by (cases mids) (simp_all add: list_members_from_card_def)

lemma fetched_refl: "fetched st st"
proof -
  have "trace st = trace st @ map MemberFetch [] \<and> distinct ([] :: string list)
          \<and> set [] \<inter> dom (MEMBERS_CACHE st) = {}
          \<and> dom (MEMBERS_CACHE st) = dom (MEMBERS_CACHE st) \<union> set []" by simp
  then show ?thesis unfolding fetched_def by blast
qed

lemma fetched_trans:
  assumes "fetched a b" and "fetched b c"
  shows "fetched a c"
proof -
  from assms(1) obtain n1 where i1: "INCLUDE_MEMBERS b = INCLUDE_MEMBERS a"
    and t1: "trace b = trace a @ map MemberFetch n1" and d1: "distinct n1"
    and s1: "set n1 \<inter> dom (MEMBERS_CACHE a) = {}"
    and c1: "dom (MEMBERS_CACHE b) = dom (MEMBERS_CACHE a) \<union> set n1"
    unfolding fetched_def by blast
  from assms(2) obtain n2 where i2: "INCLUDE_MEMBERS c = INCLUDE_MEMBERS b"
    and t2: "trace c = trace b @ map MemberFetch n2" and d2: "distinct n2"
    and s2: "set n2 \<inter> dom (MEMBERS_CACHE b) = {}"
    and c2: "dom (MEMBERS_CACHE c) = dom (MEMBERS_CACHE b) \<union> set n2"
    unfolding fetched_def by blast
  have "trace c = trace a @ map MemberFetch (n1 @ n2)" by (simp add: t1 t2)
  moreover have "distinct (n1 @ n2)" using d1 d2 s2 c1 by auto
  moreover have "set (n1 @ n2) \<inter> dom (MEMBERS_CACHE a) = {}" using s1 s2 c1 by auto
  moreover have "dom (MEMBERS_CACHE c) = dom (MEMBERS_CACHE a) \<union> set (n1 @ n2)"
    using c1 c2 by auto
  ultimately show ?thesis unfolding fetched_def using i1 i2 by metis
qed

lemma fetched_printed:
  assumes "fetched st st'"
  shows "printed st' = printed st"
  using assms lookups_append_fetches(2) unfolding fetched_def by blast

lemma fetched_consistent:
  assumes "fetched st st'" and "cache_consistent st"
  shows "cache_consistent st'"
proof -
  from assms(1) obtain new where t: "trace st' = trace st @ map MemberFetch new"
    and dn: "distinct new" and sn: "set new \<inter> dom (MEMBERS_CACHE st) = {}"
    and c: "dom (MEMBERS_CACHE st') = dom (MEMBERS_CACHE st) \<union> set new"
    unfolding fetched_def by blast
  have l: "lookups st' = lookups st @ new" using t by (rule lookups_append_fetches)
  from assms(2) have d: "distinct (lookups st)" and s: "set (lookups st) = dom (MEMBERS_CACHE st)"
    by (simp_all add: cache_consistent_def)
  have "distinct (lookups st @ new)" using d dn sn s by auto
  moreover have "set (lookups st @ new) = dom (MEMBERS_CACHE st')" using s c by auto
  ultimately show ?thesis by (simp add: cache_consistent_def l)
qed

lemma list_members_from_card_fetched:
  assumes "list_members_from_card env c st = (names, st')"
  shows "fetched st st'"
proof (cases "INCLUDE_MEMBERS st \<and> (\<exists>mids. member_id c = Some mids)")
  case True
  then obtain mids where i: "INCLUDE_MEMBERS st" and m: "member_id c = Some mids" by blast
  from assms list_members_from_card_resolve [OF i m]
  have "members_loop env mids [] st = (names, st')" by simp
  from members_loop_spec [OF this] obtain new where
    c: "MEMBERS_CACHE st' =
          (\<lambda>m. if m \<in> set mids then Some (resolved_name env st m) else MEMBERS_CACHE st m)"
    and inc: "INCLUDE_MEMBERS st' = INCLUDE_MEMBERS st"
    and t: "trace st' = trace st @ map MemberFetch new" and d: "distinct new"
    and s: "set new = set mids - dom (MEMBERS_CACHE st)" by blast
  have "dom (MEMBERS_CACHE st') = dom (MEMBERS_CACHE st) \<union> set new"
    unfolding c s by (auto simp: dom_def)
  moreover have "set new \<inter> dom (MEMBERS_CACHE st) = {}" using s by auto
  ultimately show ?thesis unfolding fetched_def using inc t d by blast
next
  case False
  then have "\<not> INCLUDE_MEMBERS st \<or> member_id c = None \<or> member_id c = Some []"
    by (cases "member_id c") auto
  from list_members_from_card_skip [OF this] assms have "st' = st" by simp
  then show ?thesis by (simp add: fetched_refl)
qed

lemma cards_loop_fetched:
  assumes "cards_loop env cs acc st = (res, st')"
  shows "fetched st st'"
  using assms
proof (induction cs arbitrary: acc st)
  case Nil
  then show ?case by (simp add: fetched_refl)
next
  case (Cons c cs)
  obtain members st1 where m: "list_members_from_card env c st = (members, st1)"
    by (cases "list_members_from_card env c st")
  then have f: "fetched st st1" by (rule list_members_from_card_fetched)
  from Cons.prems m obtain acc1 where "cards_loop env cs acc1 st1 = (res, st')"
    by (simp add: Let_def)
  then have "fetched st1 st'" by (rule Cons.IH)
  with f show ?case by (rule fetched_trans)
qed

lemma parse_cards_from_list_fetched:
  assumes "parse_cards_from_list env ls name st = (r, st')"
  shows "fetched st st'"
proof (cases "get_list ls name")
  case (Inl e)
  with assms have "st' = st" by (simp add: parse_cards_from_list_def)
  then show ?thesis by (simp add: fetched_refl)
next
  case (Inr tlist)
  from parse_cards_from_list_found [OF this, of env st] obtain cs st1 where
    p: "parse_cards_from_list env ls name st = (Inr cs, st1)"
    and c: "cards_loop env (list_cards tlist) \<lparr>planned = [], unplanned = []\<rparr> st = (cs, st1)"
    by blast
  from p assms have "st1 = st'" by simp
  with c have
    "cards_loop env (list_cards tlist) \<lparr>planned = [], unplanned = []\<rparr> st = (cs, st')"
    by simp
  then show ?thesis by (rule cards_loop_fetched)
qed

subsection \<open>Planned and unplanned units, and their references\<close>

lemma parse_cards_from_list_spec:
  assumes "get_list ls name = Inr tlist"
  shows "\<exists>cs st'. parse_cards_from_list env ls name st = (Inr cs, st')
           \<and> map unit_object (planned cs)
                = filter (\<lambda>c. \<not> is_card_unplanned c) (list_cards tlist)
           \<and> map unit_object (unplanned cs) = filter is_card_unplanned (list_cards tlist)
           \<and> (\<forall>u \<in> set (planned cs). \<not> unit_unplanned u)
           \<and> (\<forall>u \<in> set (unplanned cs). unit_unplanned u)
           \<and> (\<forall>u \<in> set (planned cs @ unplanned cs).
                 unit_unplanned u = is_card_unplanned (unit_object u)
                 \<and> unit_bugzilla u = bugzilla_loop (custom_fields (unit_object u)) None
                 \<and> unit_name u = card_name (unit_object u))"
proof -
  from parse_cards_from_list_found [OF assms, of env st] obtain cs st' where
    p: "parse_cards_from_list env ls name st = (Inr cs, st')"
    and c: "cards_loop env (list_cards tlist) \<lparr>planned = [], unplanned = []\<rparr> st = (cs, st')"
    by blast
  from cards_loop_objects [OF c]
  have o: "map unit_object (planned cs)
             = filter (\<lambda>c. \<not> is_card_unplanned c) (list_cards tlist)"
    "map unit_object (unplanned cs) = filter is_card_unplanned (list_cards tlist)"
    by simp_all
  from cards_loop_flags [OF c]
  have f: "\<forall>u \<in> set (planned cs). \<not> unit_unplanned u"
    "\<forall>u \<in> set (unplanned cs). unit_unplanned u"
    by simp_all
  from cards_loop_fields [OF c]
  have g: "\<forall>u \<in> set (planned cs @ unplanned cs).
             unit_unplanned u = is_card_unplanned (unit_object u)
             \<and> unit_bugzilla u = bugzilla_loop (custom_fields (unit_object u)) None
             \<and> unit_name u = card_name (unit_object u)"
    by simp
  from p o f g show ?thesis by blast
qed

lemma is_card_unplanned_iff:
  "is_card_unplanned c \<longleftrightarrow>
     (\<exists>l \<in> set (case labels c of None \<Rightarrow> [] | Some ls \<Rightarrow> ls).
         equal_ignoring_case (label_name l) ''UNPLANNED'')"
  by (simp add: is_card_unplanned_def unplanned_loop_iff)

text \<open>
  C1: a card is unplanned exactly when one of its labels is named UNPLANNED, whatever the
  case of the letters, and planned otherwise. \<^verbatim>\<open>parse_cards_from_list\<close> of a list that exists
  returns; its planned sequence holds the units of the planned cards of the list and its
  unplanned sequence the units of the unplanned cards, each in the order of the list, so
  every card is in exactly one of the two.
\<close>

theorem classification_partition:
  "(is_card_unplanned c \<longleftrightarrow>
      (\<exists>l \<in> set (case labels c of None \<Rightarrow> [] | Some ls \<Rightarrow> ls).
          equal_ignoring_case (label_name l) ''UNPLANNED''))
   \<and> (get_list ls name = Inr tlist \<longrightarrow>
        (\<exists>cs st'. parse_cards_from_list env ls name st = (Inr cs, st')
           \<and> map unit_object (planned cs)
                = filter (\<lambda>c. \<not> is_card_unplanned c) (list_cards tlist)
           \<and> map unit_object (unplanned cs) = filter is_card_unplanned (list_cards tlist)
           \<and> (\<forall>u \<in> set (planned cs). \<not> unit_unplanned u)
           \<and> (\<forall>u \<in> set (unplanned cs). unit_unplanned u)))"
proof (intro conjI impI)
  show "is_card_unplanned c \<longleftrightarrow>
      (\<exists>l \<in> set (case labels c of None \<Rightarrow> [] | Some ls \<Rightarrow> ls).
          equal_ignoring_case (label_name l) ''UNPLANNED'')"
    by (rule is_card_unplanned_iff)
next
  assume "get_list ls name = Inr tlist"
  from parse_cards_from_list_spec [OF this, of env st]
  show "\<exists>cs st'. parse_cards_from_list env ls name st = (Inr cs, st')
           \<and> map unit_object (planned cs)
                = filter (\<lambda>c. \<not> is_card_unplanned c) (list_cards tlist)
           \<and> map unit_object (unplanned cs) = filter is_card_unplanned (list_cards tlist)
           \<and> (\<forall>u \<in> set (planned cs). \<not> unit_unplanned u)
           \<and> (\<forall>u \<in> set (unplanned cs). unit_unplanned u)"
    by blast
qed

theorem classification_partition_witness:
  "is_card_unplanned card_fix
   \<and> \<not> is_card_unplanned card_docs
   \<and> get_list demo_lists ''done'' = Inr \<lparr>list_name = ''Done'', list_cards = [card_docs, card_fix, card_bad_ref]\<rparr>
   \<and> (\<exists>cs st'. parse_cards_from_list demo_env demo_lists ''done'' (start True) = (Inr cs, st')
         \<and> map unit_object (planned cs) = [card_docs]
         \<and> map unit_object (unplanned cs) = [card_fix, card_bad_ref])"
proof -
  have a: "is_card_unplanned card_fix" by code_simp
  have b: "\<not> is_card_unplanned card_docs" by code_simp
  have c: "is_card_unplanned card_bad_ref" by code_simp
  have g: "get_list demo_lists ''done''
             = Inr \<lparr>list_name = ''Done'', list_cards = [card_docs, card_fix, card_bad_ref]\<rparr>"
    by code_simp
  from classification_partition [of card_fix demo_lists "''done''"
        "\<lparr>list_name = ''Done'', list_cards = [card_docs, card_fix, card_bad_ref]\<rparr>"
        demo_env "start True"] g
  obtain cs st' where
    p: "parse_cards_from_list demo_env demo_lists ''done'' (start True) = (Inr cs, st')"
    and o1: "map unit_object (planned cs)
               = filter (\<lambda>c. \<not> is_card_unplanned c) [card_docs, card_fix, card_bad_ref]"
    and o2: "map unit_object (unplanned cs)
               = filter is_card_unplanned [card_docs, card_fix, card_bad_ref]"
    by auto
  from o1 a b c have "map unit_object (planned cs) = [card_docs]" by simp
  moreover from o2 a b c have "map unit_object (unplanned cs) = [card_fix, card_bad_ref]"
    by simp
  ultimately show ?thesis using a b g p by simp
qed



subsection \<open>Printing the report\<close>

lemma prints_Nil: "prints [] st = st"
  by (simp add: prints_def)

lemma prints_prints: "prints b (prints a st) = prints (a @ b) st"
  by (simp add: prints_def)

lemma emit_Print: "emit (Print line) st = prints [line] st"
  by (simp add: emit_def prints_def)

lemma prints_fields:
  "INCLUDE_MEMBERS (prints lines st) = INCLUDE_MEMBERS st"
  "MEMBERS_CACHE (prints lines st) = MEMBERS_CACHE st"
  "trace (prints lines st) = trace st @ map Print lines"
  by (simp_all add: prints_def)

lemma prints_printed: "printed (prints lines st) = printed st @ lines"
proof -
  have "concat (map print_line (map Print lines)) = lines"
    by (induction lines) simp_all
  then show ?thesis by (simp add: printed_def prints_def)
qed

lemma prints_lookups: "lookups (prints lines st) = lookups st"
proof -
  have "concat (map fetch_id (map Print lines)) = []"
    by (induction lines) simp_all
  then show ?thesis by (simp add: lookups_def prints_def)
qed

lemma prints_consistent:
  assumes "cache_consistent st"
  shows "cache_consistent (prints lines st)"
  using assms by (simp add: cache_consistent_def prints_lookups prints_fields)

lemma print_card_prints:
  "print_card b u st = prints (card_lines (INCLUDE_MEMBERS st) b u) st"
  by (simp add: print_card_def card_lines_def Let_def emit_Print prints_prints prints_fields)

lemma fold_print_card_prints:
  "fold (print_card b) us st
     = prints (concat (map (card_lines (INCLUDE_MEMBERS st) b) us)) st"
proof (induction us arbitrary: st)
  case Nil
  then show ?case by (simp add: prints_Nil)
next
  case (Cons u us)
  have "fold (print_card b) (u # us) st = fold (print_card b) us (print_card b u st)"
    by simp
  also have "\<dots> = prints (concat (map (card_lines (INCLUDE_MEMBERS (print_card b u st)) b) us))
                       (print_card b u st)"
    by (rule Cons.IH)
  also have "\<dots> = prints (concat (map (card_lines (INCLUDE_MEMBERS st) b) (u # us))) st"
    by (simp add: print_card_prints prints_prints prints_fields)
  finally show ?case .
qed

lemma parse_cards_from_list_Inl_iff:
  "(\<exists>st'. parse_cards_from_list env ls name st = (Inl e, st')) \<longleftrightarrow> get_list ls name = Inl e"
  by (cases "get_list ls name")
     (auto simp: parse_cards_from_list_def split: prod.splits)

lemma print_report_cases:
  obtains
    (missing) name e st' where
      "name \<in> set [''Sprint Backlog'', ''Doing'', ''In Review'', ''Done'']"
      "get_list ls name = Inl e" "fetched st st'"
      "print_report env ls st = (Inl e, st')"
  | (found) c1 c2 c3 c4 st1 st2 st3 st4 where
      "parse_cards_from_list env ls ''Sprint Backlog'' st = (Inr c1, st1)"
      "parse_cards_from_list env ls ''Doing'' st1 = (Inr c2, st2)"
      "parse_cards_from_list env ls ''In Review'' st2 = (Inr c3, st3)"
      "parse_cards_from_list env ls ''Done'' st3 = (Inr c4, st4)"
      "fetched st st4"
proof -
  obtain r1 st1 where p1: "parse_cards_from_list env ls ''Sprint Backlog'' st = (r1, st1)"
    by (cases "parse_cards_from_list env ls ''Sprint Backlog'' st")
  obtain r2 st2 where p2: "parse_cards_from_list env ls ''Doing'' st1 = (r2, st2)"
    by (cases "parse_cards_from_list env ls ''Doing'' st1")
  obtain r3 st3 where p3: "parse_cards_from_list env ls ''In Review'' st2 = (r3, st3)"
    by (cases "parse_cards_from_list env ls ''In Review'' st2")
  obtain r4 st4 where p4: "parse_cards_from_list env ls ''Done'' st3 = (r4, st4)"
    by (cases "parse_cards_from_list env ls ''Done'' st3")
  have f1: "fetched st st1" using p1 by (rule parse_cards_from_list_fetched)
  have f2: "fetched st st2"
    using f1 parse_cards_from_list_fetched [OF p2] by (rule fetched_trans)
  have f3: "fetched st st3"
    using f2 parse_cards_from_list_fetched [OF p3] by (rule fetched_trans)
  have f4: "fetched st st4"
    using f3 parse_cards_from_list_fetched [OF p4] by (rule fetched_trans)
  show ?thesis
  proof (cases r1)
    case (Inl e)
    with p1 have "get_list ls ''Sprint Backlog'' = Inl e"
      using parse_cards_from_list_Inl_iff by blast
    moreover have "print_report env ls st = (Inl e, st1)"
      by (simp add: print_report_def p1 Inl)
    ultimately show ?thesis using f1 missing [of "''Sprint Backlog''" e st1] by simp
  next
    case c1: (Inr c1)
    show ?thesis
    proof (cases r2)
      case (Inl e)
      with p2 have "get_list ls ''Doing'' = Inl e"
        using parse_cards_from_list_Inl_iff by blast
      moreover have "print_report env ls st = (Inl e, st2)"
        by (simp add: print_report_def p1 c1 p2 Inl)
      ultimately show ?thesis using f2 missing [of "''Doing''" e st2] by simp
    next
      case c2: (Inr c2)
      show ?thesis
      proof (cases r3)
        case (Inl e)
        with p3 have "get_list ls ''In Review'' = Inl e"
          using parse_cards_from_list_Inl_iff by blast
        moreover have "print_report env ls st = (Inl e, st3)"
          by (simp add: print_report_def p1 c1 p2 c2 p3 Inl)
        ultimately show ?thesis using f3 missing [of "''In Review''" e st3] by simp
      next
        case c3: (Inr c3)
        show ?thesis
        proof (cases r4)
          case (Inl e)
          with p4 have "get_list ls ''Done'' = Inl e"
            using parse_cards_from_list_Inl_iff by blast
          moreover have "print_report env ls st = (Inl e, st4)"
            by (simp add: print_report_def p1 c1 p2 c2 p3 c3 p4 Inl)
          ultimately show ?thesis using f4 missing [of "''Done''" e st4] by simp
        next
          case c4: (Inr c4)
          from p1 p2 p3 p4 f4 show ?thesis
            unfolding c1 c2 c3 c4 by (rule found)
        qed
      qed
    qed
  qed
qed

lemma print_report_found:
  assumes "parse_cards_from_list env ls ''Sprint Backlog'' st = (Inr c1, st1)"
    and "parse_cards_from_list env ls ''Doing'' st1 = (Inr c2, st2)"
    and "parse_cards_from_list env ls ''In Review'' st2 = (Inr c3, st3)"
    and "parse_cards_from_list env ls ''Done'' st3 = (Inr c4, st4)"
  shows "print_report env ls st =
    (case percentage (int (length (planned c4)))
            (int (length (planned c1) + length (planned c2) + length (planned c3)
                  + length (planned c4))) of
       Inl e \<Rightarrow>
         (Inl e, prints [UnitsPlanned (length (planned c1) + length (planned c2)
                           + length (planned c3) + length (planned c4)),
                         UnitsUnplanned (length (unplanned c1) + length (unplanned c2)
                           + length (unplanned c3) + length (unplanned c4))] st4)
     | Inr p \<Rightarrow>
        (case percentage (int (length (unplanned c4)))
                (int (length (unplanned c1) + length (unplanned c2) + length (unplanned c3)
                      + length (unplanned c4))) of
           Inl e \<Rightarrow>
             (Inl e, prints [UnitsPlanned (length (planned c1) + length (planned c2)
                               + length (planned c3) + length (planned c4)),
                             UnitsUnplanned (length (unplanned c1) + length (unplanned c2)
                               + length (unplanned c3) + length (unplanned c4)),
                             PlannedAchieved (length (planned c4)) p] st4)
         | Inr q \<Rightarrow>
             (Inr (), prints
                ([UnitsPlanned (length (planned c1) + length (planned c2)
                    + length (planned c3) + length (planned c4)),
                  UnitsUnplanned (length (unplanned c1) + length (unplanned c2)
                    + length (unplanned c3) + length (unplanned c4)),
                  PlannedAchieved (length (planned c4)) p,
                  UnplannedAchieved (length (unplanned c4)) q,
                  AchievementHeadline]
                 @ concat (map (card_lines (INCLUDE_MEMBERS st4) False) (planned c4))
                 @ [UnplannedHeadline]
                 @ concat (map (card_lines (INCLUDE_MEMBERS st4) False) (unplanned c4))
                 @ [UnfinishedCards]
                 @ concat (map (card_lines (INCLUDE_MEMBERS st4) True)
                     (planned c1 @ unplanned c1 @ planned c2 @ unplanned c2
                      @ planned c3 @ unplanned c3))) st4)))"
  by (simp add: print_report_def assms Let_def emit_Print fold_print_card_prints
        prints_prints prints_fields split: sum.splits)

lemma print_report_state:
  "\<exists>st4 lines. fetched st st4 \<and> snd (print_report env ls st) = prints lines st4"
proof (cases rule: print_report_cases [of ls st env])
  case (missing name e st')
  then have "fetched st st' \<and> snd (print_report env ls st) = prints [] st'"
    by (simp add: prints_Nil)
  then show ?thesis by blast
next
  case (found c1 c2 c3 c4 st1 st2 st3 st4)
  from print_report_found [OF found(1-4)]
  have "\<exists>lines. snd (print_report env ls st) = prints lines st4"
    by (auto split: sum.splits)
  with found(5) show ?thesis by blast
qed

lemma print_report_consistent:
  assumes "cache_consistent st"
  shows "cache_consistent (snd (print_report env ls st))"
proof -
  from print_report_state [of st env ls] obtain st4 lines where
    f: "fetched st st4" and s: "snd (print_report env ls st) = prints lines st4" by blast
  from f assms have "cache_consistent st4" by (rule fetched_consistent)
  then show ?thesis unfolding s by (rule prints_consistent)
qed

subsection \<open>Member resolution, and lists that are missing\<close>

lemma emit_consistent:
  assumes "fetch_id e = []" and "cache_consistent st"
  shows "cache_consistent (emit e st)"
  using assms by (simp add: cache_consistent_def lookups_def emit_def)

lemma score_loop_consistent:
  assumes "cache_consistent st"
  shows "cache_consistent (snd (score_loop env us st))"
  using assms
proof (induction us arbitrary: st)
  case Nil
  then show ?case by simp
next
  case (Cons u us)
  show ?case
  proof (cases "get_bugzilla u")
    case None
    with Cons show ?thesis by simp
  next
    case (Some bz_url)
    show ?thesis
    proof (cases "bug_id env bz_url")
      case (Inl e)
      with Some Cons.prems show ?thesis by simp
    next
      case (Inr i)
      let ?st2 = "emit (Print (SettingScore (unit_name u) (bug_pm_score env i)))
                    (emit (GetBug i) st)"
      have c2: "cache_consistent ?st2"
        using Cons.prems by (intro emit_consistent) simp_all
      show ?thesis
      proof (cases "py_int env (bug_pm_score env i)")
        case (Inl e)
        with Some Inr c2 show ?thesis by (simp add: Let_def)
      next
        case n: (Inr n)
        have "cache_consistent (emit (SetCustomField (unit_object u) FIELD_PM_SCORE n) ?st2)"
          by (rule emit_consistent) (simp_all add: c2)
        then have "cache_consistent (snd (score_loop env us
                     (emit (SetCustomField (unit_object u) FIELD_PM_SCORE n) ?st2)))"
          by (rule Cons.IH)
        with Some Inr n show ?thesis by (simp add: Let_def)
      qed
    qed
  qed
qed

lemma set_pm_score_consistent:
  assumes "cache_consistent st"
  shows "cache_consistent (snd (set_pm_score env ls st))"
proof -
  obtain r st1 where p: "parse_cards_from_list env ls ''Backlog'' st = (r, st1)"
    by (cases "parse_cards_from_list env ls ''Backlog'' st")
  from parse_cards_from_list_fetched [OF p] assms have c1: "cache_consistent st1"
    by (rule fetched_consistent)
  show ?thesis
  proof (cases r)
    case (Inl e)
    with p c1 show ?thesis by (simp add: set_pm_score_def)
  next
    case (Inr cs)
    have "cache_consistent (if \<not> bz_logged_in env then emit InteractiveLogin st1 else st1)"
      using c1 by (simp add: emit_consistent)
    then have "cache_consistent (snd (score_loop env (planned cs @ unplanned cs)
                 (if \<not> bz_logged_in env then emit InteractiveLogin st1 else st1)))"
      by (rule score_loop_consistent)
    with p Inr show ?thesis by (simp add: set_pm_score_def Let_def)
  qed
qed

lemma main_consistent:
  assumes "cache_consistent st"
  shows "cache_consistent (snd (main env boards board_arg command st))"
proof (cases command)
  case None
  with assms show ?thesis by (simp add: main_def emit_consistent)
next
  case (Some cmd)
  show ?thesis
  proof (cases "get_board boards board_arg")
    case None
    with Some assms show ?thesis by (simp add: main_def emit_consistent)
  next
    case b: (Some b)
    from assms have "cache_consistent (snd (print_report env (list_lists b) st))"
      and "cache_consistent (snd (set_pm_score env (list_lists b) st))"
      and "cache_consistent (emit (Print (InvalidCommand cmd)) st)"
      by (simp_all add: print_report_consistent set_pm_score_consistent emit_consistent)
    with Some b show ?thesis by (simp add: main_def Let_def)
  qed
qed

text \<open>
  C6: with member inclusion disabled, or for a card without member ids, the list of names
  is empty and the state, so the trace of remote lookups, is unchanged. Otherwise the
  names are those of the card's member ids, in their order: the cached name of an id that
  is in the cache, the fetched name of one that is not; the remote lookups made are those
  of the distinct ids that were not cached, one each, and every id of the card is cached
  afterwards. When the cache and the lookups agreed before, they agree afterwards, and
  they do so after a whole run of \<^verbatim>\<open>main\<close>: no id is looked up twice in a run.
\<close>

theorem member_resolution:
  "(\<not> INCLUDE_MEMBERS st \<or> member_id c = None \<or> member_id c = Some []
      \<longrightarrow> list_members_from_card env c st = ([], st))
   \<and> (INCLUDE_MEMBERS st \<and> member_id c = Some mids \<longrightarrow>
        (case list_members_from_card env c st of
           (names, st') \<Rightarrow>
             names = map (resolved_name env st) mids
             \<and> (\<exists>new. trace st' = trace st @ map MemberFetch new \<and> distinct new
                   \<and> set new = set mids - dom (MEMBERS_CACHE st))
             \<and> (\<forall>mid \<in> set mids. MEMBERS_CACHE st' mid = Some (resolved_name env st mid))
             \<and> (cache_consistent st \<longrightarrow> cache_consistent st')))
   \<and> (cache_consistent st
        \<longrightarrow> cache_consistent (snd (main env boards board_arg command st)))"
proof (intro conjI impI)
  assume "\<not> INCLUDE_MEMBERS st \<or> member_id c = None \<or> member_id c = Some []"
  then show "list_members_from_card env c st = ([], st)"
    by (rule list_members_from_card_skip)
next
  assume a: "INCLUDE_MEMBERS st \<and> member_id c = Some mids"
  obtain names st' where r: "list_members_from_card env c st = (names, st')"
    by (cases "list_members_from_card env c st")
  from a r have "members_loop env mids [] st = (names, st')"
    by (simp add: list_members_from_card_resolve)
  from members_loop_spec [OF this]
  have n: "names = map (resolved_name env st) mids"
    and c: "MEMBERS_CACHE st' =
             (\<lambda>m. if m \<in> set mids then Some (resolved_name env st m) else MEMBERS_CACHE st m)"
    and t: "\<exists>new. trace st' = trace st @ map MemberFetch new \<and> distinct new
               \<and> set new = set mids - dom (MEMBERS_CACHE st)"
    by simp_all
  from c have m: "\<forall>mid \<in> set mids. MEMBERS_CACHE st' mid = Some (resolved_name env st mid)"
    by simp
  have k: "cache_consistent st \<longrightarrow> cache_consistent st'"
    using list_members_from_card_fetched [OF r] fetched_consistent by blast
  from n t m k show "case list_members_from_card env c st of
           (names, st') \<Rightarrow>
             names = map (resolved_name env st) mids
             \<and> (\<exists>new. trace st' = trace st @ map MemberFetch new \<and> distinct new
                   \<and> set new = set mids - dom (MEMBERS_CACHE st))
             \<and> (\<forall>mid \<in> set mids. MEMBERS_CACHE st' mid = Some (resolved_name env st mid))
             \<and> (cache_consistent st \<longrightarrow> cache_consistent st')"
    by (simp add: r)
next
  assume "cache_consistent st"
  then show "cache_consistent (snd (main env boards board_arg command st))"
    by (rule main_consistent)
qed

theorem member_resolution_witness:
  "\<not> INCLUDE_MEMBERS (start False)
   \<and> list_members_from_card demo_env card_fix (start False) = ([], start False)
   \<and> INCLUDE_MEMBERS (start True) \<and> member_id card_fix = Some [''m1'', ''m2'']
   \<and> fst (list_members_from_card demo_env card_fix (start True)) = [''Member m1'', ''Member m2'']
   \<and> lookups (snd (list_members_from_card demo_env card_fix (start True))) = [''m1'', ''m2'']
   \<and> lookups (snd (parse_cards_from_list demo_env demo_lists ''Done'' (start True)))
        = [''m1'', ''m2'']
   \<and> cache_consistent (start True)
   \<and> cache_consistent
        (snd (main demo_env demo_boards ''Team C'' (Some ''report'') (start True)))"
proof -
  have a: "\<not> INCLUDE_MEMBERS (start False)" by (simp add: start_def)
  have b: "INCLUDE_MEMBERS (start True)" by (simp add: start_def)
  have c: "member_id card_fix = Some [''m1'', ''m2'']" by (simp add: card_fix_def)
  have d: "fst (list_members_from_card demo_env card_fix (start True))
             = [''Member m1'', ''Member m2'']" by code_simp
  have e: "lookups (snd (list_members_from_card demo_env card_fix (start True)))
             = [''m1'', ''m2'']" by code_simp
  have f: "lookups (snd (parse_cards_from_list demo_env demo_lists ''Done'' (start True)))
             = [''m1'', ''m2'']" by code_simp
  have g: "cache_consistent (start True)"
    by (simp add: cache_consistent_def lookups_def start_def)
  from a b c g
    member_resolution [of "start False" card_fix demo_env "[''m1'', ''m2'']" demo_boards
      "''Team C''" "Some ''report''"]
    member_resolution [of "start True" card_fix demo_env "[''m1'', ''m2'']" demo_boards
      "''Team C''" "Some ''report''"]
  have "list_members_from_card demo_env card_fix (start False) = ([], start False)"
    and "cache_consistent
           (snd (main demo_env demo_boards ''Team C'' (Some ''report'') (start True)))"
    by blast+
  with a b c d e f g show ?thesis by simp
qed



lemma main_pm_score:
  assumes "get_board boards board_arg = Some b"
  shows "main env boards board_arg (Some ''pm-score'') st = set_pm_score env (list_lists b) st"
  using assms by (simp add: main_def)




subsection \<open>Score synchronisation\<close>

lemma score_loop_append:
  "score_loop env (pre @ post) st =
     (case score_loop env pre st of
        (Inl e, st1) \<Rightarrow> (Inl e, st1)
      | (Inr r, st1) \<Rightarrow> score_loop env post st1)"
proof (induction pre arbitrary: st)
  case Nil
  then show ?case by simp
next
  case (Cons u pre)
  show ?case
    by (simp add: Cons.IH Let_def split: option.splits sum.splits)
qed

lemma score_loop_skip:
  assumes "get_bugzilla u = None"
  shows "score_loop env (u # rest) st = score_loop env rest st"
  using assms by simp

lemma score_loop_no_references:
  assumes "\<forall>u \<in> set us. get_bugzilla u = None"
  shows "score_loop env us st = (Inr (), st)"
  using assms by (induction us) simp_all

lemma score_loop_malformed:
  assumes "get_bugzilla u = Some url"
    and "parse_qs env (urlparse_query env url) ''id'' = None"
  shows "score_loop env (u # rest) st = (Inl (KeyError ''id''), st)"
  using assms by (simp add: bug_id_def)


text \<open>
  C7: a unit for which \<^verbatim>\<open>card.get('bugzilla')\<close> is \<^verbatim>\<open>None\<close> is passed over: the pass has the
  same result and the same effects as the pass over the other units alone, so the unit
  causes no query, no write and no error, and the units after it are processed as if it
  were not there. A pass over units without references does nothing at all.
\<close>

theorem units_without_reference_are_skipped:
  "(get_bugzilla u = None \<longrightarrow>
      score_loop env (pre @ u # post) st = score_loop env (pre @ post) st)
   \<and> (unit_bugzilla u = None \<longrightarrow> get_bugzilla u = None)
   \<and> ((\<forall>x \<in> set us. get_bugzilla x = None) \<longrightarrow> score_loop env us st = (Inr (), st))"
proof (intro conjI impI)
  assume n: "get_bugzilla u = None"
  have h: "\<And>s. score_loop env (u # post) s = score_loop env post s"
    using n by (rule score_loop_skip)
  obtain r st1 where p: "score_loop env pre st = (r, st1)"
    by (cases "score_loop env pre st")
  show "score_loop env (pre @ u # post) st = score_loop env (pre @ post) st"
    by (cases r) (simp_all add: score_loop_append [of env pre] p h del: score_loop.simps)
next
  assume "unit_bugzilla u = None"
  then show "get_bugzilla u = None" by (simp add: get_bugzilla_def)
next
  assume "\<forall>x \<in> set us. get_bugzilla x = None"
  then show "score_loop env us st = (Inr (), st)" by (rule score_loop_no_references)
qed

theorem units_without_reference_are_skipped_witness:
  "get_bugzilla (demo_unit card_docs) = None
   \<and> unit_bugzilla (demo_unit card_docs) = None
   \<and> score_loop demo_env ([demo_unit card_two_refs] @ demo_unit card_docs # [demo_unit card_fix])
        (start False)
     = score_loop demo_env ([demo_unit card_two_refs] @ [demo_unit card_fix]) (start False)
   \<and> score_loop demo_env [demo_unit card_docs, demo_unit card_docs] (start False)
     = (Inr (), start False)
   \<and> trace (snd (score_loop demo_env [demo_unit card_docs, demo_unit card_fix] (start False)))
     = [GetBug ''12345'', Print (SettingScore ''Fix login'' ''900''),
        SetCustomField card_fix ''PM_SCORE'' 900]"
proof -
  have a: "unit_bugzilla (demo_unit card_docs) = None" by code_simp
  have b: "get_bugzilla (demo_unit card_docs) = None" by code_simp
  have c: "trace (snd (score_loop demo_env [demo_unit card_docs, demo_unit card_fix]
                   (start False)))
             = [GetBug ''12345'', Print (SettingScore ''Fix login'' ''900''),
                SetCustomField card_fix ''PM_SCORE'' 900]"
    by code_simp
  from b
    units_without_reference_are_skipped [of "demo_unit card_docs" demo_env
      "[demo_unit card_two_refs]" "[demo_unit card_fix]" "start False"
      "[demo_unit card_docs, demo_unit card_docs]"]
  have "score_loop demo_env
          ([demo_unit card_two_refs] @ demo_unit card_docs # [demo_unit card_fix]) (start False)
        = score_loop demo_env ([demo_unit card_two_refs] @ [demo_unit card_fix]) (start False)"
    and "score_loop demo_env [demo_unit card_docs, demo_unit card_docs] (start False)
         = (Inr (), start False)"
    by simp_all
  with a b c show ?thesis by simp
qed

subsection \<open>References without an id, and with one\<close>

lemma score_loop_fails_at:
  assumes "score_loop env pre st = (Inr (), st1)"
    and "score_loop env (u # post) st1 = r"
  shows "score_loop env (pre @ u # post) st = r"
  using assms by (simp add: score_loop_append [of env pre] del: score_loop.simps)

lemma score_loop_member_fails:
  assumes "u \<in> set us" and "get_bugzilla u = Some url"
    and "parse_qs env (urlparse_query env url) ''id'' = None"
  shows "\<exists>e st'. score_loop env us st = (Inl e, st')"
proof -
  from assms(1) obtain pre post where us: "us = pre @ u # post"
    by (meson split_list)
  obtain r st1 where p: "score_loop env pre st = (r, st1)"
    by (cases "score_loop env pre st")
  show ?thesis
  proof (cases r)
    case (Inl e)
    with p have "score_loop env us st = (Inl e, st1)"
      by (simp add: us score_loop_append [of env pre] del: score_loop.simps)
    then show ?thesis by blast
  next
    case (Inr x)
    with p have "score_loop env pre st = (Inr (), st1)" by simp
    then have "score_loop env us st = (Inl (KeyError ''id''), st1)"
      unfolding us using score_loop_malformed [OF assms(2) assms(3)]
      by (rule score_loop_fails_at)
    then show ?thesis by blast
  qed
qed

text \<open>
  C8: when the reference of a unit has no \<^verbatim>\<open>id\<close> in its query, the subscript \<^verbatim>\<open>['id']\<close>
  raises \<^verbatim>\<open>KeyError\<close>, which nothing catches. A pass that reaches the unit ends there with
  that error, in the state that the units before it have produced: their queries, printed
  lines and writes stay in the trace, and the result does not depend on the units that
  come after. A pass, and so the command, over a backlog that holds such a unit fails.
\<close>

theorem malformed_reference_aborts:
  "get_bugzilla u = Some url \<and> parse_qs env (urlparse_query env url) ''id'' = None \<longrightarrow>
     (score_loop env pre st = (Inr (), st1) \<longrightarrow>
        score_loop env (pre @ u # post) st = (Inl (KeyError ''id''), st1))
     \<and> (\<exists>e st'. score_loop env (pre @ u # post) st = (Inl e, st'))
     \<and> (parse_cards_from_list env ls ''Backlog'' st = (Inr cs, st0)
          \<and> u \<in> set (planned cs @ unplanned cs) \<longrightarrow>
        (\<exists>e st'. set_pm_score env ls st = (Inl e, st')
           \<and> (get_board boards board_arg = Some b \<and> list_lists b = ls \<longrightarrow>
                main env boards board_arg (Some ''pm-score'') st = (Inl e, st'))))"
proof (intro impI conjI)
  assume a: "get_bugzilla u = Some url \<and> parse_qs env (urlparse_query env url) ''id'' = None"
  assume "score_loop env pre st = (Inr (), st1)"
  then show "score_loop env (pre @ u # post) st = (Inl (KeyError ''id''), st1)"
    using a score_loop_malformed [of u url env post st1]
    by (intro score_loop_fails_at) simp_all
next
  assume a: "get_bugzilla u = Some url \<and> parse_qs env (urlparse_query env url) ''id'' = None"
  then show "\<exists>e st'. score_loop env (pre @ u # post) st = (Inl e, st')"
    by (intro score_loop_member_fails [of u _ url]) simp_all
next
  assume a: "get_bugzilla u = Some url \<and> parse_qs env (urlparse_query env url) ''id'' = None"
  assume p: "parse_cards_from_list env ls ''Backlog'' st = (Inr cs, st0)
               \<and> u \<in> set (planned cs @ unplanned cs)"
  define st2 where "st2 = (if \<not> bz_logged_in env then emit InteractiveLogin st0 else st0)"
  from a p have "\<exists>e st'. score_loop env (planned cs @ unplanned cs) st2 = (Inl e, st')"
    by (intro score_loop_member_fails [of u _ url]) simp_all
  then obtain e st' where s: "score_loop env (planned cs @ unplanned cs) st2 = (Inl e, st')"
    by blast
  from p s have r: "set_pm_score env ls st = (Inl e, st')"
    by (simp add: set_pm_score_def st2_def Let_def)
  then have "get_board boards board_arg = Some b \<and> list_lists b = ls \<longrightarrow>
               main env boards board_arg (Some ''pm-score'') st = (Inl e, st')"
    by (auto simp: main_pm_score)
  with r show "\<exists>e st'. set_pm_score env ls st = (Inl e, st')
           \<and> (get_board boards board_arg = Some b \<and> list_lists b = ls \<longrightarrow>
                main env boards board_arg (Some ''pm-score'') st = (Inl e, st'))"
    by blast
qed

theorem malformed_reference_aborts_witness:
  "get_bugzilla (demo_unit card_bad_ref)
     = Some ''https://bugzilla.redhat.com/show_bug.cgi?bug=7''
   \<and> parse_qs demo_env
        (urlparse_query demo_env ''https://bugzilla.redhat.com/show_bug.cgi?bug=7'') ''id''
      = None
   \<and> fst (score_loop demo_env [demo_unit card_fix] (start False)) = Inr ()
   \<and> trace (snd (score_loop demo_env [demo_unit card_fix] (start False)))
      = [GetBug ''12345'', Print (SettingScore ''Fix login'' ''900''),
         SetCustomField card_fix ''PM_SCORE'' 900]
   \<and> score_loop demo_env
        ([demo_unit card_fix] @ demo_unit card_bad_ref # [demo_unit card_two_refs])
        (start False)
      = (Inl (KeyError ''id''), snd (score_loop demo_env [demo_unit card_fix] (start False)))
   \<and> fst (set_pm_score demo_env demo_lists (start False)) = Inl (KeyError ''id'')"
proof -
  have a: "get_bugzilla (demo_unit card_bad_ref)
             = Some ''https://bugzilla.redhat.com/show_bug.cgi?bug=7''" by code_simp
  have b: "parse_qs demo_env
             (urlparse_query demo_env ''https://bugzilla.redhat.com/show_bug.cgi?bug=7'') ''id''
           = None" by code_simp
  have c: "fst (score_loop demo_env [demo_unit card_fix] (start False)) = Inr ()"
    by code_simp
  have d: "trace (snd (score_loop demo_env [demo_unit card_fix] (start False)))
             = [GetBug ''12345'', Print (SettingScore ''Fix login'' ''900''),
                SetCustomField card_fix ''PM_SCORE'' 900]" by code_simp
  have e: "fst (set_pm_score demo_env demo_lists (start False)) = Inl (KeyError ''id'')"
    by code_simp
  from c have p: "score_loop demo_env [demo_unit card_fix] (start False)
                    = (Inr (), snd (score_loop demo_env [demo_unit card_fix] (start False)))"
    by (cases "score_loop demo_env [demo_unit card_fix] (start False)") simp
  from a b p
    malformed_reference_aborts [of "demo_unit card_bad_ref"
      "''https://bugzilla.redhat.com/show_bug.cgi?bug=7''" demo_env "[demo_unit card_fix]"
      "start False" "snd (score_loop demo_env [demo_unit card_fix] (start False))"
      "[demo_unit card_two_refs]"]
  have "score_loop demo_env
          ([demo_unit card_fix] @ demo_unit card_bad_ref # [demo_unit card_two_refs])
          (start False)
        = (Inl (KeyError ''id''), snd (score_loop demo_env [demo_unit card_fix] (start False)))"
    by blast
  with a b c d e show ?thesis by simp
qed




subsection \<open>The aggregates of the report\<close>

lemma float_div_error:
  assumes "float_div x y = Inl e"
  shows "e = ZeroDivisionError"
  using assms
  by (cases y; cases x) (auto split: if_splits)

lemma percentage_returns:
  assumes "py_float part = Inr x" and "py_float whole = Inr y"
  shows "\<exists>p. percentage part whole = Inr p"
proof (cases "float_div (float_mul (Finite 100) x) y")
  case (Inl e)
  then have "e = ZeroDivisionError" by (rule float_div_error)
  with Inl assms show ?thesis by (simp add: percentage_def Let_def)
next
  case (Inr r)
  with assms show ?thesis by (simp add: percentage_def Let_def)
qed

lemma percentage_of_counts:
  assumes "b < 2 ^ 53" and "a \<le> b"
  shows "\<exists>p. percentage (int a) (int b) = Inr p"
proof -
  have "int b < 2 ^ 53" using assms(1) by (simp add: of_nat_less_numeral_power_cancel_iff)
  moreover have "int a \<le> int b" using assms(2) by simp
  ultimately have "int a < 2 ^ 53" by linarith
  have "py_float (int a) = Inr (Finite (of_int (int a)))"
    using \<open>int a < 2 ^ 53\<close> by (intro py_float_exact) simp_all
  moreover have "py_float (int b) = Inr (Finite (of_int (int b)))"
    using \<open>int b < 2 ^ 53\<close> by (intro py_float_exact) simp_all
  ultimately show ?thesis by (rule percentage_returns)
qed

lemma parse_cards_from_list_counts:
  assumes "get_list ls name = Inr tlist"
    and "parse_cards_from_list env ls name st = (Inr cs, st')"
  shows "length (planned cs) = planned_count tlist"
    and "length (unplanned cs) = unplanned_count tlist"
proof -
  from parse_cards_from_list_spec [OF assms(1), of env st] assms(2)
  have o: "map unit_object (planned cs)
             = filter (\<lambda>c. \<not> is_card_unplanned c) (list_cards tlist)"
    "map unit_object (unplanned cs) = filter is_card_unplanned (list_cards tlist)"
    by auto
  from o(1) have "length (map unit_object (planned cs)) = planned_count tlist"
    by (simp only: planned_count_def)
  then show "length (planned cs) = planned_count tlist" by simp
  from o(2) have "length (map unit_object (unplanned cs)) = unplanned_count tlist"
    by (simp only: unplanned_count_def)
  then show "length (unplanned cs) = unplanned_count tlist" by simp
qed

lemma parse_cards_from_list_Inr_list:
  assumes "parse_cards_from_list env ls name st = (Inr cs, st')"
  shows "\<exists>tlist. get_list ls name = Inr tlist"
  using assms by (cases "get_list ls name") (simp_all add: parse_cards_from_list_def)

text \<open>
  C2: on a board that has the four lists, with fewer than \<open>2\<^sup>5\<^sup>3\<close> cards of either kind,
  the report is printed and its first four lines are: the number of planned cards of the
  four lists, the number of their unplanned cards, the number of planned cards of Done
  with \<^verbatim>\<open>percentage\<close> of that number and the first total, and the number of unplanned cards
  of Done with \<^verbatim>\<open>percentage\<close> of that number and the second total.
\<close>

theorem report_aggregates:
  "get_list ls ''Sprint Backlog'' = Inr l1 \<and> get_list ls ''Doing'' = Inr l2
   \<and> get_list ls ''In Review'' = Inr l3 \<and> get_list ls ''Done'' = Inr l4
   \<and> planned_count l1 + planned_count l2 + planned_count l3 + planned_count l4 < 2 ^ 53
   \<and> unplanned_count l1 + unplanned_count l2 + unplanned_count l3 + unplanned_count l4 < 2 ^ 53
   \<longrightarrow>
     (\<exists>p q rest st'.
        percentage (int (planned_count l4))
          (int (planned_count l1 + planned_count l2 + planned_count l3 + planned_count l4))
          = Inr p
        \<and> percentage (int (unplanned_count l4))
            (int (unplanned_count l1 + unplanned_count l2 + unplanned_count l3
                  + unplanned_count l4))
          = Inr q
        \<and> print_report env ls st = (Inr (), st')
        \<and> printed st' = printed st
            @ [UnitsPlanned
                 (planned_count l1 + planned_count l2 + planned_count l3 + planned_count l4),
               UnitsUnplanned
                 (unplanned_count l1 + unplanned_count l2 + unplanned_count l3
                  + unplanned_count l4),
               PlannedAchieved (planned_count l4) p,
               UnplannedAchieved (unplanned_count l4) q]
            @ rest)"
proof
  assume a: "get_list ls ''Sprint Backlog'' = Inr l1 \<and> get_list ls ''Doing'' = Inr l2
   \<and> get_list ls ''In Review'' = Inr l3 \<and> get_list ls ''Done'' = Inr l4
   \<and> planned_count l1 + planned_count l2 + planned_count l3 + planned_count l4 < 2 ^ 53
   \<and> unplanned_count l1 + unplanned_count l2 + unplanned_count l3 + unplanned_count l4 < 2 ^ 53"
  let ?tp = "planned_count l1 + planned_count l2 + planned_count l3 + planned_count l4"
  let ?tu = "unplanned_count l1 + unplanned_count l2 + unplanned_count l3 + unplanned_count l4"
  from a have g: "get_list ls ''Sprint Backlog'' = Inr l1" "get_list ls ''Doing'' = Inr l2"
    "get_list ls ''In Review'' = Inr l3" "get_list ls ''Done'' = Inr l4"
    and bp: "?tp < 2 ^ 53" and bu: "?tu < 2 ^ 53" by simp_all
  from percentage_of_counts [OF bp, of "planned_count l4"]
  obtain p where p: "percentage (int (planned_count l4)) (int ?tp) = Inr p" by auto
  from percentage_of_counts [OF bu, of "unplanned_count l4"]
  obtain q where q: "percentage (int (unplanned_count l4)) (int ?tu) = Inr q" by auto
  show "\<exists>p q rest st'.
        percentage (int (planned_count l4)) (int ?tp) = Inr p
        \<and> percentage (int (unplanned_count l4)) (int ?tu) = Inr q
        \<and> print_report env ls st = (Inr (), st')
        \<and> printed st' = printed st
            @ [UnitsPlanned ?tp, UnitsUnplanned ?tu,
               PlannedAchieved (planned_count l4) p,
               UnplannedAchieved (unplanned_count l4) q]
            @ rest"
  proof (cases rule: print_report_cases [of ls st env])
    case (missing name e st')
    with g show ?thesis by auto
  next
    case (found c1 c2 c3 c4 st1 st2 st3 st4)
    note n = parse_cards_from_list_counts [OF g(1) found(1)]
      parse_cards_from_list_counts [OF g(2) found(2)]
      parse_cards_from_list_counts [OF g(3) found(3)]
      parse_cards_from_list_counts [OF g(4) found(4)]
    note f = print_report_found [OF found(1-4), unfolded n p q sum.case]
    define rest where "rest =
       AchievementHeadline
       # concat (map (card_lines (INCLUDE_MEMBERS st4) False) (planned c4))
       @ [UnplannedHeadline]
       @ concat (map (card_lines (INCLUDE_MEMBERS st4) False) (unplanned c4))
       @ [UnfinishedCards]
       @ concat (map (card_lines (INCLUDE_MEMBERS st4) True)
           (planned c1 @ unplanned c1 @ planned c2 @ unplanned c2
            @ planned c3 @ unplanned c3))"
    have r: "print_report env ls st =
        (Inr (), prints ([UnitsPlanned ?tp, UnitsUnplanned ?tu,
                          PlannedAchieved (planned_count l4) p,
                          UnplannedAchieved (unplanned_count l4) q] @ rest) st4)"
      unfolding f rest_def by simp
    have "printed (prints ([UnitsPlanned ?tp, UnitsUnplanned ?tu,
                          PlannedAchieved (planned_count l4) p,
                          UnplannedAchieved (unplanned_count l4) q] @ rest) st4)
            = printed st @ [UnitsPlanned ?tp, UnitsUnplanned ?tu,
                          PlannedAchieved (planned_count l4) p,
                          UnplannedAchieved (unplanned_count l4) q] @ rest"
      by (simp add: prints_printed fetched_printed [OF found(5)])
    with p q r show ?thesis by blast
  qed
qed

theorem report_aggregates_witness:
  "get_list finished_lists ''Sprint Backlog''
     = Inr \<lparr>list_name = ''Sprint Backlog'', list_cards = []\<rparr>
   \<and> get_list finished_lists ''Doing'' = Inr \<lparr>list_name = ''Doing'', list_cards = []\<rparr>
   \<and> get_list finished_lists ''In Review''
     = Inr \<lparr>list_name = ''In Review'', list_cards = []\<rparr>
   \<and> get_list finished_lists ''Done''
     = Inr \<lparr>list_name = ''Done'', list_cards = [card_docs, card_two_refs]\<rparr>
   \<and> (\<exists>rest st'.
        print_report demo_env finished_lists (start False) = (Inr (), st')
        \<and> printed st'
            = [UnitsPlanned 2, UnitsUnplanned 0,
               PlannedAchieved 2 (Finite 100), UnplannedAchieved 0 (Finite 100)] @ rest)"
proof -
  let ?l1 = "\<lparr>list_name = ''Sprint Backlog'', list_cards = []\<rparr>"
  let ?l2 = "\<lparr>list_name = ''Doing'', list_cards = []\<rparr>"
  let ?l3 = "\<lparr>list_name = ''In Review'', list_cards = []\<rparr>"
  let ?l4 = "\<lparr>list_name = ''Done'', list_cards = [card_docs, card_two_refs]\<rparr>"
  have g1: "get_list finished_lists ''Sprint Backlog'' = Inr ?l1" by code_simp
  have g2: "get_list finished_lists ''Doing'' = Inr ?l2" by code_simp
  have g3: "get_list finished_lists ''In Review'' = Inr ?l3" by code_simp
  have g4: "get_list finished_lists ''Done'' = Inr ?l4" by code_simp
  have c: "planned_count ?l1 = 0" "planned_count ?l2 = 0" "planned_count ?l3 = 0"
    "unplanned_count ?l1 = 0" "unplanned_count ?l2 = 0" "unplanned_count ?l3 = 0"
    by (simp_all add: planned_count_def unplanned_count_def)
  have c4: "planned_count ?l4 = 2" "unplanned_count ?l4 = 0" by code_simp+
  have p: "percentage 2 2 = Inr (Finite 100)"
    by (rule percentage_whole_whole) simp_all
  have q: "percentage 0 0 = Inr (Finite 100)"
    using py_float_zero by (rule percentage_zero_whole)
  have p0: "printed (start False) = []" by (simp add: printed_def start_def)
  from g1 g2 g3 g4 c c4 p q p0
    report_aggregates [of finished_lists ?l1 ?l2 ?l3 ?l4 demo_env "start False"]
  have "\<exists>rest st'.
        print_report demo_env finished_lists (start False) = (Inr (), st')
        \<and> printed st'
            = [UnitsPlanned 2, UnitsUnplanned 0,
               PlannedAchieved 2 (Finite 100), UnplannedAchieved 0 (Finite 100)] @ rest"
    by auto
  with g1 g2 g3 g4 show ?thesis by simp
qed

end
